theory Spec2Isabelle
  imports Main "HOL-Library.AList"
begin

section \<open>The cache simulator of sim.py\<close>

text \<open>
  Python integers are unbounded: addresses, tags, sizes, counters and timestamps are
  \<open>int\<close>, and \<open>//\<close> and \<open>%\<close> are \<open>div\<close> and \<open>mod\<close> on \<open>int\<close> (both floor).
  A cell of a Python list that holds \<open>None\<close> or an integer is an \<open>int option\<close>.
  Every exception of the source is a value of \<open>error\<close>; an operation returns its
  outcome together with the objects as the call leaves them, since what a Python method
  has assigned before it raises stays assigned.
\<close>

datatype error =
    ValueError string
  | ZeroDivisionError
  | IndexError
  | KeyError
  | OverflowError

subsection \<open>Memory\<close>

record Memory =
  size_m :: int
  data_m :: "int option list"
  access_count_m :: int

text \<open>\<open>Memory.__init__\<close>: \<open>[None] * size\<close> is empty for a size below 1.\<close>

definition Memory_init :: "int \<Rightarrow> Memory" where
  "Memory_init sz = \<lparr>size_m = sz, data_m = replicate (nat sz) None, access_count_m = 0\<rparr>"

text \<open>
  \<open>Memory.read\<close> and \<open>Memory.write\<close>. The range check comes before the counter. The
  index is in \<open>[0, size)\<close> after the check; it is past the end of the list only in a
  Memory whose list is shorter than \<open>size\<close>, where Python raises IndexError with the
  counter already incremented.
\<close>

definition Memory_read :: "Memory \<Rightarrow> int \<Rightarrow> (error + int) \<times> Memory" where
  "Memory_read m address =
     (if address < 0 \<or> address \<ge> size_m m then (Inl (ValueError ''Address out of range''), m)
      else
        let m1 = m\<lparr>access_count_m := access_count_m m + 1\<rparr> in
        if nat address < length (data_m m1) then
          (case data_m m1 ! nat address of
             None \<Rightarrow> (Inr 0, m1)
           | Some v \<Rightarrow> (Inr v, m1))
        else (Inl IndexError, m1))"

definition Memory_write :: "Memory \<Rightarrow> int \<Rightarrow> int option \<Rightarrow> (error + unit) \<times> Memory" where
  "Memory_write m address d =
     (if address < 0 \<or> address \<ge> size_m m then (Inl (ValueError ''Address out of range''), m)
      else
        let m1 = m\<lparr>access_count_m := access_count_m m + 1\<rparr> in
        if nat address < length (data_m m1) then
          (Inr (), m1\<lparr>data_m := (data_m m1)[nat address := d]\<rparr>)
        else (Inl IndexError, m1))"

text \<open>
  Memory objects are shared by reference: every CacheSet keeps the reference the Cache
  was constructed with, and \<open>Cache.read\<close> and \<open>Cache.write\<close> receive a reference as an
  argument, which need not be the same object. The store maps references to objects.
\<close>

type_synonym mem_ref = nat
type_synonym store = "mem_ref \<Rightarrow> Memory"

subsection \<open>CacheBlock\<close>

record CacheBlock =
  tag :: int
  valid :: bool
  dirty :: bool
  block_size_b :: int
  data :: "int option list"
  base_address :: int
  load_time :: int
  last_time :: int

subsection \<open>CacheSet\<close>

text \<open>
  \<open>blocks\<close> is an OrderedDict: an association list in insertion order with unique keys.
  Assigning to a present key replaces the value in place, assigning to an absent key
  appends (\<open>AList.update\<close>); \<open>del\<close> is \<open>AList.delete\<close>.
\<close>

record CacheSet =
  memory_s :: mem_ref
  blocks :: "(int \<times> CacheBlock) list"
  associativity_s :: int
  policy_s :: string

definition CacheSet_init :: "int \<Rightarrow> string \<Rightarrow> mem_ref \<Rightarrow> CacheSet" where
  "CacheSet_init assoc pol mem =
     \<lparr>memory_s = mem, blocks = [], associativity_s = assoc, policy_s = pol\<rparr>"

definition find_block :: "CacheSet \<Rightarrow> int \<Rightarrow> CacheBlock option" where
  "find_block s t = map_of (blocks s) t"

text \<open>
  The scan of \<open>evict_block\<close> (lines 73-77 and 80-84), over \<open>blocks.items()\<close> in order:
  \<open>temp\<close> starts at the sentinel \<open>-1\<close>, \<open>evict_tag\<close> at \<open>None\<close>; \<open>stamp\<close> is
  \<open>load_time\<close> for FIFO and \<open>last_time\<close> for LRU.
\<close>

fun scan_min :: "(CacheBlock \<Rightarrow> int) \<Rightarrow> (int \<times> CacheBlock) list \<Rightarrow> int \<Rightarrow> int option
    \<Rightarrow> int \<times> int option" where
  "scan_min stamp [] temp evict_tag = (temp, evict_tag)"
| "scan_min stamp ((t, block) # rest) temp evict_tag =
     (if temp = -1 \<or> stamp block < temp then scan_min stamp rest (stamp block) (Some t)
      else scan_min stamp rest temp evict_tag)"

text \<open>
  The choice of the victim (lines 63-84), on a set that has blocks. \<open>random.choice\<close> is not
  a function of the state: the argument \<open>r\<close> stands for its draw, and the key at position
  \<open>r mod len\<close> is taken, so that every key is the choice of some \<open>r\<close>. A policy that is
  none of the three leaves \<open>evict_tag\<close> at \<open>None\<close>.
\<close>

definition choose_evict_tag :: "CacheSet \<Rightarrow> nat \<Rightarrow> int option" where
  "choose_evict_tag s r =
     (if policy_s s = ''RANDOM'' then Some (map fst (blocks s) ! (r mod length (blocks s)))
      else if policy_s s = ''FIFO'' then snd (scan_min load_time (blocks s) (-1) None)
      else if policy_s s = ''LRU'' then snd (scan_min last_time (blocks s) (-1) None)
      else None)"

text \<open>
  The write-back loop (lines 89-92) over \<open>range(block_size)\<close>: a word whose address is
  not below \<open>memory.size\<close> is skipped; \<open>data[i]\<close> past the end of the block's list raises
  IndexError and a negative address makes \<open>Memory.write\<close> raise, both with the earlier
  words already written.
\<close>

fun write_back :: "CacheBlock \<Rightarrow> nat list \<Rightarrow> Memory \<Rightarrow> error option \<times> Memory" where
  "write_back b [] m = (None, m)"
| "write_back b (i # rest) m =
     (let addr = base_address b + int i in
      if addr < size_m m then
        (if i < length (data b) then
           (case Memory_write m addr (data b ! i) of
              (Inl e, m1) \<Rightarrow> (Some e, m1)
            | (Inr _, m1) \<Rightarrow> write_back b rest m1)
         else (Some IndexError, m))
      else write_back b rest m)"

definition evict_block :: "CacheSet \<Rightarrow> store \<Rightarrow> nat \<Rightarrow> error option \<times> CacheSet \<times> store" where
  "evict_block s h r =
     (if blocks s = [] then (None, s, h)
      else
        (case choose_evict_tag s r of
           None \<Rightarrow> (None, s, h)
         | Some evict_tag \<Rightarrow>
             (case map_of (blocks s) evict_tag of
                None \<Rightarrow> (Some KeyError, s, h)
              | Some b \<Rightarrow>
                  if dirty b \<and> data b \<noteq> [] then
                    (case write_back b [0 ..< nat (block_size_b b)] (h (memory_s s)) of
                       (Some e, m1) \<Rightarrow> (Some e, s, h(memory_s s := m1))
                     | (None, m1) \<Rightarrow>
                         (None, s\<lparr>blocks := AList.delete evict_tag (blocks s)\<rparr>,
                          h(memory_s s := m1)))
                  else (None, s\<lparr>blocks := AList.delete evict_tag (blocks s)\<rparr>, h))))"

definition add_block :: "CacheSet \<Rightarrow> store \<Rightarrow> CacheBlock \<Rightarrow> nat
    \<Rightarrow> error option \<times> CacheSet \<times> store" where
  "add_block s h block r =
     (if int (length (blocks s)) \<ge> associativity_s s then
        (case evict_block s h r of
           (Some e, s1, h1) \<Rightarrow> (Some e, s1, h1)
         | (None, s1, h1) \<Rightarrow>
             (None, s1\<lparr>blocks := AList.update (tag block) block (blocks s1)\<rparr>, h1))
      else (None, s\<lparr>blocks := AList.update (tag block) block (blocks s)\<rparr>, h))"

subsection \<open>Cache\<close>

record Cache =
  cache_size :: int
  associativity :: int
  policy :: string
  address_bit :: nat
  block_size :: int
  set_count :: int
  memory :: mem_ref
  access_count :: int
  hit_count :: int
  read_count :: int
  write_count :: int
  read_hit_count :: int
  write_hit_count :: int
  time :: int
  sets :: "int \<Rightarrow> CacheSet option"

text \<open>
  \<open>math.log2(n) % 1 != 0\<close> (line 102) is floating point. For a power of two \<open>log2\<close> is
  exact and the test is false; the model takes the test to be true for every other
  positive \<open>n\<close>, which is what the source computes as long as the double \<open>log2 n\<close> is not
  rounded to an integer (that can happen only for \<open>n\<close> far above \<open>2 ^ 40\<close>, next to a large
  power of two).
\<close>

function is_power_of_two :: "int \<Rightarrow> bool" where
  "is_power_of_two n =
     (if n \<le> 0 then False
      else if n = 1 then True
      else if n mod 2 = 0 then is_power_of_two (n div 2)
      else False)"
  by pat_completeness auto
termination
  by (relation "measure nat") auto

text \<open>
  \<open>Cache.__init__\<close>. \<open>address_bit\<close> is a \<open>nat\<close>: for a negative one \<open>2**address_bit\<close> is a
  float. \<open>int(cache_size / (block_size * associativity))\<close> is a true division followed by
  truncation: on powers of two the quotient is exact, so it is \<open>div\<close>, and a quotient that
  no double holds (\<open>2 ^ 1024\<close> and above) raises OverflowError.
\<close>

definition Cache_init :: "int \<Rightarrow> int \<Rightarrow> int \<Rightarrow> string \<Rightarrow> nat \<Rightarrow> mem_ref \<Rightarrow> error + Cache" where
  "Cache_init csize bsize assoc pol abit mem =
     (if csize \<le> 0 \<or> bsize \<le> 0 \<or> assoc \<le> 0 then
        Inl (ValueError ''Parameter 'Size' must be greater than 0'')
      else if \<not> is_power_of_two csize \<or> \<not> is_power_of_two bsize \<or> \<not> is_power_of_two assoc then
        Inl (ValueError ''Parameter 'Size' must be a power of 2'')
      else if pol \<notin> set [''FIFO'', ''LRU'', ''RANDOM''] then
        Inl (ValueError ''Policy must be one of FIFO , LRU, RANDOM'')
      else if csize div (bsize * assoc) \<ge> 2 ^ 1024 then Inl OverflowError
      else
        let sc = csize div (bsize * assoc) in
        Inr \<lparr>cache_size = csize, associativity = assoc, policy = pol, address_bit = abit,
             block_size = bsize, set_count = sc, memory = mem,
             access_count = 0, hit_count = 0, read_count = 0, write_count = 0,
             read_hit_count = 0, write_hit_count = 0, time = 0,
             sets = (\<lambda>i. if 0 \<le> i \<and> i < sc then Some (CacheSet_init assoc pol mem) else None)\<rparr>)"

text \<open>\<open>address_split\<close>: the range check, then \<open>%\<close> and \<open>//\<close>, which raise on a zero divisor.\<close>

definition address_split :: "Cache \<Rightarrow> int \<Rightarrow> error + (int \<times> int \<times> int)" where
  "address_split c address =
     (if address \<ge> 2 ^ address_bit c then Inl (ValueError ''Address out of range'')
      else if block_size c = 0 then Inl ZeroDivisionError
      else if set_count c = 0 then Inl ZeroDivisionError
      else Inr (address div (block_size c * set_count c),
                (address div block_size c) mod set_count c,
                address mod block_size c))"

text \<open>
  The position Python's \<open>xs[i]\<close> reads or assigns in a list of \<open>n\<close> items: \<open>i\<close> itself
  from the front, \<open>n + i\<close> for a negative \<open>i\<close>, and IndexError (\<open>None\<close> here) outside.
\<close>

definition list_pos :: "nat \<Rightarrow> int \<Rightarrow> nat option" where
  "list_pos n i =
     (if 0 \<le> i \<and> i < int n then Some (nat i)
      else if i < 0 \<and> - int n \<le> i then Some (nat (int n + i))
      else None)"

definition py_index :: "'a list \<Rightarrow> int \<Rightarrow> error + 'a" where
  "py_index xs i = (case list_pos (length xs) i of None \<Rightarrow> Inl IndexError | Some j \<Rightarrow> Inr (xs ! j))"

text \<open>\<open>block.data[offset] if block.data else None\<close>.\<close>

definition data_at :: "int option list \<Rightarrow> int \<Rightarrow> error + int option" where
  "data_at xs offset = (if xs \<noteq> [] then py_index xs offset else Inr None)"

text \<open>
  The fill loop of a read miss (lines 165-168) over \<open>range(block_size)\<close>: a word at or
  above \<open>2**address_bit\<close> is left out; a failing \<open>memory.read\<close> ends the call.
\<close>

fun fill_loop :: "int \<Rightarrow> nat \<Rightarrow> nat list \<Rightarrow> Memory \<Rightarrow> int option list
    \<Rightarrow> (error + int option list) \<times> Memory" where
  "fill_loop block_address abit [] m acc = (Inr acc, m)"
| "fill_loop block_address abit (i # rest) m acc =
     (if block_address + int i < 2 ^ abit then
        (case Memory_read m (block_address + int i) of
           (Inl e, m1) \<Rightarrow> (Inl e, m1)
         | (Inr v, m1) \<Rightarrow> fill_loop block_address abit rest m1 (acc @ [Some v]))
      else fill_loop block_address abit rest m acc)"

text \<open>The hit branch of \<open>Cache.read\<close> (lines 153-161), on the block found in the set.\<close>

definition read_hit :: "Cache \<Rightarrow> int \<Rightarrow> CacheSet \<Rightarrow> int \<Rightarrow> int \<Rightarrow> CacheBlock
    \<Rightarrow> (error + int option) \<times> Cache" where
  "read_hit c index cache_set t offset block =
     (let c1 = c\<lparr>hit_count := hit_count c + 1, read_hit_count := read_hit_count c + 1\<rparr>;
          block1 = (if policy c1 = ''LRU'' then block\<lparr>last_time := time c1\<rparr> else block);
          set1 = cache_set\<lparr>blocks := AList.update t block1 (blocks cache_set)\<rparr>;
          c2 = c1\<lparr>sets := (sets c1)(index \<mapsto> set1), time := time c1 + 1\<rparr>
      in (data_at (data block1) offset, c2))"

text \<open>The miss branch of \<open>Cache.read\<close> (lines 163-184).\<close>

definition read_miss :: "Cache \<Rightarrow> store \<Rightarrow> mem_ref \<Rightarrow> int \<Rightarrow> nat \<Rightarrow> int \<Rightarrow> CacheSet \<Rightarrow> int
    \<Rightarrow> int \<Rightarrow> (error + int option) \<times> Cache \<times> store" where
  "read_miss c h mem address r index cache_set t offset =
     (let block_address = (address div block_size c) * block_size c in
      case fill_loop block_address (address_bit c) [0 ..< nat (block_size c)] (h mem) [] of
        (Inl e, m1) \<Rightarrow> (Inl e, c, h(mem := m1))
      | (Inr d, m1) \<Rightarrow>
          (let new_block = \<lparr>tag = t, valid = True, dirty = False, block_size_b = block_size c,
                            data = d, base_address = block_address,
                            load_time = time c, last_time = time c\<rparr>
           in case add_block cache_set (h(mem := m1)) new_block r of
                (Some e, set1, h1) \<Rightarrow> (Inl e, c\<lparr>sets := (sets c)(index \<mapsto> set1)\<rparr>, h1)
              | (None, set1, h1) \<Rightarrow>
                  (data_at d offset,
                   c\<lparr>sets := (sets c)(index \<mapsto> set1), time := time c + 1\<rparr>, h1)))"

text \<open>
  \<open>Cache.read(address, memory)\<close>; \<open>r\<close> is the draw of \<open>random.choice\<close>, used only when a
  RANDOM set evicts. A CacheBlock object is always true, so \<open>block and block.valid\<close> is
  \<open>block is not None and block.valid\<close>.
\<close>

definition Cache_read :: "Cache \<Rightarrow> store \<Rightarrow> mem_ref \<Rightarrow> int \<Rightarrow> nat
    \<Rightarrow> (error + int option) \<times> Cache \<times> store" where
  "Cache_read c h mem address r =
     (let c1 = c\<lparr>access_count := access_count c + 1, read_count := read_count c + 1\<rparr> in
      case address_split c1 address of
        Inl e \<Rightarrow> (Inl e, c1, h)
      | Inr (t, index, offset) \<Rightarrow>
          (case sets c1 index of
             None \<Rightarrow> (Inl KeyError, c1, h)
           | Some cache_set \<Rightarrow>
               (case find_block cache_set t of
                  None \<Rightarrow> read_miss c1 h mem address r index cache_set t offset
                | Some block \<Rightarrow>
                    if valid block then
                      (case read_hit c1 index cache_set t offset block of
                         (res, c2) \<Rightarrow> (res, c2, h))
                    else read_miss c1 h mem address r index cache_set t offset)))"

text \<open>
  The hit branch of \<open>Cache.write\<close> (lines 197-212). \<open>block.data[offset] = data\<close> raises
  IndexError outside the list, with the counters and a refilled \<open>data\<close> already assigned.
\<close>

definition write_hit :: "Cache \<Rightarrow> int \<Rightarrow> CacheSet \<Rightarrow> int \<Rightarrow> int \<Rightarrow> int \<Rightarrow> CacheBlock
    \<Rightarrow> (error + unit) \<times> Cache" where
  "write_hit c index cache_set t offset d block =
     (let c1 = c\<lparr>hit_count := hit_count c + 1, write_hit_count := write_hit_count c + 1\<rparr>;
          block1 = (if data block = [] then block\<lparr>data := replicate (nat (block_size c1)) None\<rparr>
                    else block)
      in case list_pos (length (data block1)) offset of
           Some j \<Rightarrow>
             (let block2 = block1\<lparr>data := (data block1)[j := Some d], dirty := True\<rparr>;
                  block3 = (if policy c1 = ''LRU'' then block2\<lparr>last_time := time c1\<rparr> else block2);
                  set1 = cache_set\<lparr>blocks := AList.update t block3 (blocks cache_set)\<rparr>
              in (Inr (), c1\<lparr>sets := (sets c1)(index \<mapsto> set1), time := time c1 + 1\<rparr>))
         | None \<Rightarrow>
             (let set1 = cache_set\<lparr>blocks := AList.update t block1 (blocks cache_set)\<rparr>
              in (Inl IndexError, c1\<lparr>sets := (sets c1)(index \<mapsto> set1)\<rparr>)))"

text \<open>The miss branch of \<open>Cache.write\<close> (lines 213-216): the clock first, then Memory.\<close>

definition write_miss :: "Cache \<Rightarrow> store \<Rightarrow> mem_ref \<Rightarrow> int \<Rightarrow> int
    \<Rightarrow> (error + unit) \<times> Cache \<times> store" where
  "write_miss c h mem address d =
     (let c1 = c\<lparr>time := time c + 1\<rparr> in
      case Memory_write (h mem) address (Some d) of
        (res, m1) \<Rightarrow> (res, c1, h(mem := m1)))"

definition Cache_write :: "Cache \<Rightarrow> store \<Rightarrow> mem_ref \<Rightarrow> int \<Rightarrow> int
    \<Rightarrow> (error + unit) \<times> Cache \<times> store" where
  "Cache_write c h mem address d =
     (let c1 = c\<lparr>access_count := access_count c + 1, write_count := write_count c + 1\<rparr> in
      case address_split c1 address of
        Inl e \<Rightarrow> (Inl e, c1, h)
      | Inr (t, index, offset) \<Rightarrow>
          (case sets c1 index of
             None \<Rightarrow> (Inl KeyError, c1, h)
           | Some cache_set \<Rightarrow>
               (case find_block cache_set t of
                  None \<Rightarrow> write_miss c1 h mem address d
                | Some block \<Rightarrow>
                    if valid block then
                      (case write_hit c1 index cache_set t offset d block of
                         (res, c2) \<Rightarrow> (res, c2, h))
                    else write_miss c1 h mem address d)))"

subsection \<open>Sequences of calls\<close>

text \<open>
  What a driver does with a Cache (\<open>trace_file\<close>, \<open>random_access\<close>, the menu of \<open>main\<close>): one
  call of \<open>read\<close> or \<open>write\<close> after the other on the same objects. A call that raises
  leaves the objects as they are at the raise, and the menu goes on with them; the run
  collects the outcome of every call.
\<close>

datatype call = Read mem_ref int nat | Write mem_ref int int

datatype outcome = Raised error | ReadValue "int option" | Written

fun do_call :: "Cache \<Rightarrow> store \<Rightarrow> call \<Rightarrow> outcome \<times> Cache \<times> store" where
  "do_call c h (Read mem address r) =
     (case Cache_read c h mem address r of
        (Inl e, c1, h1) \<Rightarrow> (Raised e, c1, h1)
      | (Inr v, c1, h1) \<Rightarrow> (ReadValue v, c1, h1))"
| "do_call c h (Write mem address d) =
     (case Cache_write c h mem address d of
        (Inl e, c1, h1) \<Rightarrow> (Raised e, c1, h1)
      | (Inr _, c1, h1) \<Rightarrow> (Written, c1, h1))"

fun run_calls :: "Cache \<Rightarrow> store \<Rightarrow> call list \<Rightarrow> outcome list \<times> Cache \<times> store" where
  "run_calls c h [] = ([], c, h)"
| "run_calls c h (x # rest) =
     (case do_call c h x of
        (out, c1, h1) \<Rightarrow>
          (case run_calls c1 h1 rest of (outs, c2, h2) \<Rightarrow> (out # outs, c2, h2)))"

subsection \<open>A small configuration for concrete runs\<close>

text \<open>
  \<open>Memory(2**4)\<close> behind every reference, and what \<open>Cache(8, 2, 2, policy, 4, memory)\<close>
  constructs: two sets of two blocks of two words over sixteen addresses.
\<close>

definition demo_store :: store where
  "demo_store = (\<lambda>_. Memory_init 16)"

definition demo_cache :: "string \<Rightarrow> Cache" where
  "demo_cache pol =
     \<lparr>cache_size = 8, associativity = 2, policy = pol, address_bit = 4,
      block_size = 2, set_count = 2, memory = 0,
      access_count = 0, hit_count = 0, read_count = 0, write_count = 0,
      read_hit_count = 0, write_hit_count = 0, time = 0,
      sets = (\<lambda>i. if 0 \<le> i \<and> i < 2 then Some (CacheSet_init 2 pol 0) else None)\<rparr>"

definition demo_block :: "int \<Rightarrow> int \<Rightarrow> bool \<Rightarrow> int option list \<Rightarrow> CacheBlock" where
  "demo_block t stamp d ws =
     \<lparr>tag = t, valid = True, dirty = d, block_size_b = 2, data = ws, base_address = 4 * t,
      load_time = stamp, last_time = stamp\<rparr>"

text \<open>A set of the small configuration with the given blocks.\<close>

definition demo_set :: "string \<Rightarrow> (int \<times> CacheBlock) list \<Rightarrow> CacheSet" where
  "demo_set pol bs = (CacheSet_init 2 pol 0)\<lparr>blocks := bs\<rparr>"

text \<open>The constructed cache after \<open>read(5)\<close>: the block of tag 1 sits in set 0.\<close>

definition demo_cache_read5 :: "string \<Rightarrow> Cache" where
  "demo_cache_read5 pol =
     (demo_cache pol)\<lparr>access_count := 1, read_count := 1, time := 1,
        sets := (sets (demo_cache pol))
                  (0 \<mapsto> (CacheSet_init 2 pol 0)\<lparr>blocks := [(1, demo_block 1 0 False [Some 0, Some 0])]\<rparr>)\<rparr>"

subsection \<open>Predicates of the statements\<close>

text \<open>
  What the write-back loop needs to run through on a block: a base address that is not
  negative, a Memory whose list has \<open>size\<close> cells, and a data word for every offset whose
  address lies in the Memory.
\<close>

definition write_back_ready :: "CacheBlock \<Rightarrow> Memory \<Rightarrow> bool" where
  "write_back_ready b m \<longleftrightarrow>
     0 \<le> base_address b \<and> length (data_m m) = nat (size_m m)
     \<and> (\<forall>i < nat (block_size_b b). base_address b + int i < size_m m \<longrightarrow> i < length (data b))"

definition counters_ok :: "Cache \<Rightarrow> bool" where
  "counters_ok c \<longleftrightarrow> access_count c = read_count c + write_count c
                    \<and> hit_count c = read_hit_count c + write_hit_count c"

subsection \<open>Well-formed states\<close>

text \<open>
  The states a Cache reaches when it is driven as \<open>main\<close> drives it: constructed over a
  Memory of \<open>2 ** address_bit\<close> cells, which is also the Memory passed to every call.
  \<open>mem_ok\<close> is that Memory. \<open>block_ok\<close> is a block of set \<open>i\<close> under tag \<open>t\<close>: valid, based at
  the address its tag and index stand for, with a word for every offset inside the address
  space, and with stamps between zero and the clock. \<open>set_ok\<close> is a set with unique tags, no
  more blocks than ways, and its blocks in the order of their load times. \<open>cache_ok\<close> is a
  Cache with positive sizes whose sets with an index below \<open>set_count\<close> are all there.
\<close>

definition mem_ok :: "nat \<Rightarrow> Memory \<Rightarrow> bool" where
  "mem_ok abit m \<longleftrightarrow> size_m m = 2 ^ abit \<and> length (data_m m) = nat (size_m m)"

definition block_ok :: "Cache \<Rightarrow> int \<Rightarrow> int \<times> CacheBlock \<Rightarrow> bool" where
  "block_ok c i x \<longleftrightarrow>
     valid (snd x) \<and> block_size_b (snd x) = block_size c \<and> 0 \<le> fst x
     \<and> base_address (snd x) = (fst x * set_count c + i) * block_size c
     \<and> (\<forall>j < nat (block_size c).
           base_address (snd x) + int j < 2 ^ address_bit c \<longrightarrow> j < length (data (snd x)))
     \<and> 0 \<le> load_time (snd x) \<and> load_time (snd x) < time c
     \<and> 0 \<le> last_time (snd x) \<and> last_time (snd x) < time c"

definition set_ok :: "Cache \<Rightarrow> int \<Rightarrow> CacheSet \<Rightarrow> bool" where
  "set_ok c i s \<longleftrightarrow>
     memory_s s = memory c \<and> policy_s s = policy c \<and> associativity_s s = associativity c
     \<and> distinct (map fst (blocks s)) \<and> int (length (blocks s)) \<le> associativity c
     \<and> (\<forall>x \<in> set (blocks s). block_ok c i x)
     \<and> sorted_wrt (<) (map (load_time \<circ> snd) (blocks s))"

definition cache_ok :: "Cache \<Rightarrow> store \<Rightarrow> bool" where
  "cache_ok c h \<longleftrightarrow>
     0 < block_size c \<and> 0 < set_count c \<and> 0 < associativity c
     \<and> policy c \<in> set [''FIFO'', ''LRU'', ''RANDOM''] \<and> 0 \<le> time c
     \<and> mem_ok (address_bit c) (h (memory c))
     \<and> (\<forall>i. 0 \<le> i \<and> i < set_count c \<longrightarrow> (\<exists>s. sets c i = Some s \<and> set_ok c i s))"

text \<open>The configuration fields, which no call assigns.\<close>

definition same_config :: "Cache \<Rightarrow> Cache \<Rightarrow> bool" where
  "same_config c c' \<longleftrightarrow>
     cache_size c' = cache_size c \<and> block_size c' = block_size c \<and> set_count c' = set_count c
     \<and> address_bit c' = address_bit c \<and> associativity c' = associativity c
     \<and> policy c' = policy c \<and> memory c' = memory c"

subsection \<open>Observations and call sequences of the statements\<close>

text \<open>The tags of set \<open>i\<close> in insertion order, and the tags with their load times.\<close>

definition set_tags :: "Cache \<Rightarrow> int \<Rightarrow> int list" where
  "set_tags c i = (case sets c i of None \<Rightarrow> [] | Some s \<Rightarrow> map fst (blocks s))"

definition set_load_times :: "Cache \<Rightarrow> int \<Rightarrow> (int \<times> int) list" where
  "set_load_times c i =
     (case sets c i of None \<Rightarrow> [] | Some s \<Rightarrow> map (\<lambda>x. (fst x, load_time (snd x))) (blocks s))"

text \<open>
  A call as the drivers issue it: on the Memory the Cache was constructed with, at an
  address of the address space.
\<close>

fun call_ok :: "Cache \<Rightarrow> call \<Rightarrow> bool" where
  "call_ok c (Read mem a r) \<longleftrightarrow> mem = memory c \<and> 0 \<le> a \<and> a < 2 ^ address_bit c"
| "call_ok c (Write mem a d) \<longleftrightarrow> mem = memory c \<and> 0 \<le> a \<and> a < 2 ^ address_bit c"

text \<open>The tags that the reads of a call sequence address in set \<open>i\<close>, in call order.\<close>

fun reads_into :: "Cache \<Rightarrow> int \<Rightarrow> call list \<Rightarrow> int list" where
  "reads_into c i [] = []"
| "reads_into c i (Read mem a r # rest) =
     (case address_split c a of
        Inr (t, idx, off) \<Rightarrow> if idx = i then t # reads_into c i rest else reads_into c i rest
      | Inl e \<Rightarrow> reads_into c i rest)"
| "reads_into c i (Write mem a d # rest) = reads_into c i rest"

text \<open>
  A queue of at most \<open>k\<close> tags in insertion order, as the specification describes FIFO:
  a tag that is present changes nothing, a new tag goes to the end, and when the queue is
  full the tag at the front leaves first.
\<close>

definition fifo_insert :: "nat \<Rightarrow> int list \<Rightarrow> int \<Rightarrow> int list" where
  "fifo_insert k q t = (if t \<in> set q then q else if k \<le> length q then tl q @ [t] else q @ [t])"

section \<open>Properties\<close>

declare is_power_of_two.simps [simp del]

lemma is_power_of_two_pow: "is_power_of_two (2 ^ k)"
proof (induction k)
  case 0
  show ?case by (simp add: is_power_of_two.simps)
next
  case (Suc k)
  have a: "\<not> (2::int) ^ Suc k \<le> 0" by simp
  have "(2::int) ^ Suc k \<ge> 2" using one_le_power[of "2::int" k] by simp
  then have b: "(2::int) ^ Suc k \<noteq> 1" by linarith
  have c: "(2::int) ^ Suc k mod 2 = 0" by simp
  have d: "(2::int) ^ Suc k div 2 = 2 ^ k" by simp
  have "is_power_of_two (2 ^ Suc k) = is_power_of_two (2 ^ Suc k div 2)"
    using a b c by (subst is_power_of_two.simps) (simp only: if_False if_True simp_thms)
  then show ?case using Suc d by simp
qed

lemma demo_cache_constructed:
  assumes "pol \<in> set [''FIFO'', ''LRU'', ''RANDOM'']"
  shows "Cache_init 8 2 2 pol 4 0 = Inr (demo_cache pol)"
proof -
  have "is_power_of_two 8" "is_power_of_two 2"
    using is_power_of_two_pow[of 3] is_power_of_two_pow[of 1] by simp_all
  then show ?thesis using assms by (simp add: Cache_init_def demo_cache_def)
qed

lemma upt2: "[0..<2] = [0, 1]"
  by (simp add: upt_rec)

lemma demo_read5:
  "Cache_read (demo_cache pol) demo_store 0 5 r =
     (Inr (Some 0), demo_cache_read5 pol,
      demo_store(0 := (demo_store 0)\<lparr>access_count_m := 2\<rparr>))"
  by (simp add: Cache_read_def address_split_def demo_cache_def demo_cache_read5_def
      CacheSet_init_def find_block_def read_miss_def Memory_read_def demo_store_def
      Memory_init_def add_block_def data_at_def py_index_def list_pos_def demo_block_def upt2
      nth_Cons')

text \<open>\<open>Memory(2**address_bit)\<close>, the Memory \<open>main\<close> constructs, is the Memory of a well-formed state.\<close>

lemma Memory_init_ok: "mem_ok abit (Memory_init (2 ^ abit))"
  by (simp add: mem_ok_def Memory_init_def)

text \<open>
  The sets of the concrete runs below are sets the small cache reaches; the set with two
  equal stamps is built by \<open>CacheSet.add_block\<close> from blocks with the same stamp (a fresh
  CacheBlock has both stamps at 0), which no run of \<open>Cache.read\<close> produces.
\<close>

lemma demo_fifo_dirty_set_reached:
  "sets (fst (snd (run_calls (demo_cache ''FIFO'') demo_store [Read 0 1 0, Write 0 1 7, Read 0 5 0]))) 0
     = Some (demo_set ''FIFO'' [(0, demo_block 0 0 True [Some 0, Some 7]),
                                (1, demo_block 1 2 False [Some 0, Some 0])])"
  by (simp add: Cache_read_def Cache_write_def address_split_def demo_cache_def
      CacheSet_init_def find_block_def read_miss_def write_hit_def Memory_read_def demo_store_def
      Memory_init_def add_block_def data_at_def py_index_def list_pos_def demo_block_def upt2
      demo_set_def nth_Cons')

lemma demo_lru_set_reached:
  "sets (fst (snd (run_calls (demo_cache ''LRU'') demo_store [Read 0 1 0, Read 0 5 0, Read 0 0 0]))) 0
     = Some (demo_set ''LRU'' [(0, (demo_block 0 0 False [Some 0, Some 0])\<lparr>last_time := 2\<rparr>),
                               (1, demo_block 1 1 False [Some 0, Some 0])])"
  by (simp add: Cache_read_def address_split_def demo_cache_def
      CacheSet_init_def find_block_def read_miss_def read_hit_def Memory_read_def demo_store_def
      Memory_init_def add_block_def data_at_def py_index_def list_pos_def demo_block_def upt2
      demo_set_def nth_Cons')

lemma demo_tie_set_built:
  "fst (snd (add_block (fst (snd (add_block (CacheSet_init 2 pol 0) demo_store
                                     (demo_block 3 0 False [Some 0, Some 0]) 0)))
                       demo_store (demo_block 1 0 False [Some 0, Some 0]) 0))
     = demo_set pol [(3, demo_block 3 0 False [Some 0, Some 0]),
                     (1, demo_block 1 0 False [Some 0, Some 0])]"
  by (simp add: add_block_def CacheSet_init_def demo_set_def demo_block_def)

lemma address_split_counters [simp]:
  "address_split (c\<lparr>access_count := x\<rparr>) a = address_split c a"
  "address_split (c\<lparr>read_count := x\<rparr>) a = address_split c a"
  "address_split (c\<lparr>write_count := x\<rparr>) a = address_split c a"
  by (simp_all add: address_split_def)

subsection \<open>Address decomposition\<close>

text \<open>
  C5. On a cache with a positive block size and a positive set count (the constructor
  gives a positive block size; with a set count of zero \<open>address_split\<close> raises and
  returns no triple), \<open>address_split\<close> returns for every address below
  \<open>2 ^ address_bit\<close>, and the triple it returns recombines to the address:
  \<open>tag * block_size * set_count + index * block_size + offset = address\<close>.
\<close>

theorem address_split_roundtrip:
  assumes "0 < block_size c" and "0 < set_count c" and "address < 2 ^ address_bit c"
  shows "\<exists>t i off. address_split c address = Inr (t, i, off) \<and>
           t * block_size c * set_count c + i * block_size c + off = address"
proof -
  let ?b = "block_size c" and ?s = "set_count c"
  have 1: "address div (?b * ?s) = (address div ?b) div ?s"
    using assms(2) by (simp add: zdiv_zmult2_eq)
  have 2: "(address div ?b) div ?s * ?s + (address div ?b) mod ?s = address div ?b"
    by simp
  have ring: "x * ?b * ?s + y * ?b + z = (x * ?s + y) * ?b + z" for x y z :: int
    by (simp add: algebra_simps)
  have "(address div ?b) div ?s * ?b * ?s + (address div ?b) mod ?s * ?b + address mod ?b
        = ((address div ?b) div ?s * ?s + (address div ?b) mod ?s) * ?b + address mod ?b"
    by (rule ring)
  also have "\<dots> = address" unfolding 2 by simp
  finally have 3: "(address div ?b) div ?s * ?b * ?s + (address div ?b) mod ?s * ?b
                     + address mod ?b = address" .
  have "address_split c address =
          Inr (address div (?b * ?s), (address div ?b) mod ?s, address mod ?b)"
    using assms by (simp add: address_split_def)
  then show ?thesis using 3 unfolding 1 by blast
qed

theorem address_split_roundtrip_witness:
  "0 < block_size (demo_cache ''LRU'') \<and> 0 < set_count (demo_cache ''LRU'')
   \<and> (13::int) < 2 ^ address_bit (demo_cache ''LRU'')
   \<and> (\<exists>t i off. address_split (demo_cache ''LRU'') 13 = Inr (t, i, off) \<and>
          t * block_size (demo_cache ''LRU'') * set_count (demo_cache ''LRU'')
            + i * block_size (demo_cache ''LRU'') + off = 13)"
proof -
  have h1: "0 < block_size (demo_cache ''LRU'')" by (simp add: demo_cache_def)
  have h2: "0 < set_count (demo_cache ''LRU'')" by (simp add: demo_cache_def)
  have h3: "(13::int) < 2 ^ address_bit (demo_cache ''LRU'')" by (simp add: demo_cache_def)
  show ?thesis using h1 h2 h3 address_split_roundtrip [OF h1 h2 h3] by blast
qed

subsection \<open>Addresses out of range\<close>

text \<open>
  C8, as the code has it. A \<open>read\<close> or \<open>write\<close> at an address of \<open>2 ^ address_bit\<close> or
  above raises the ValueError of \<open>address_split\<close>. The two counters of the call
  (\<open>access_count\<close>, and \<open>read_count\<close> or \<open>write_count\<close>) are incremented before the
  address is split and keep their increment; everything else (\<open>time\<close>, the hit counters,
  the sets and every Memory) is as before the call.
\<close>

theorem out_of_range_counts_the_access:
  assumes "address \<ge> 2 ^ address_bit c"
  shows "Cache_read c h mem address r =
           (Inl (ValueError ''Address out of range''),
            c\<lparr>access_count := access_count c + 1, read_count := read_count c + 1\<rparr>, h)
       \<and> Cache_write c h mem address d =
           (Inl (ValueError ''Address out of range''),
            c\<lparr>access_count := access_count c + 1, write_count := write_count c + 1\<rparr>, h)"
  using assms by (simp add: Cache_read_def Cache_write_def address_split_def)

theorem out_of_range_counts_the_access_witness:
  "(16::int) \<ge> 2 ^ address_bit (demo_cache ''LRU'')
   \<and> Cache_read (demo_cache ''LRU'') demo_store 0 16 0 =
       (Inl (ValueError ''Address out of range''),
        (demo_cache ''LRU'')\<lparr>access_count := access_count (demo_cache ''LRU'') + 1,
                              read_count := read_count (demo_cache ''LRU'') + 1\<rparr>, demo_store)
   \<and> Cache_write (demo_cache ''LRU'') demo_store 0 16 7 =
       (Inl (ValueError ''Address out of range''),
        (demo_cache ''LRU'')\<lparr>access_count := access_count (demo_cache ''LRU'') + 1,
                              write_count := write_count (demo_cache ''LRU'') + 1\<rparr>, demo_store)"
proof -
  have h: "(16::int) \<ge> 2 ^ address_bit (demo_cache ''LRU'')" by (simp add: demo_cache_def)
  show ?thesis
    using h out_of_range_counts_the_access [OF h, of demo_store 0 0 7] by blast
qed

text \<open>
  The claim as the specification words it (no mutation at all) fails: the failed read
  below leaves \<open>access_count\<close> and \<open>read_count\<close> at 1 on a cache constructed with both
  at 0.
\<close>

theorem out_of_range_unchanged_counterexample:
  "fst (Cache_read (demo_cache ''LRU'') demo_store 0 16 0) = Inl (ValueError ''Address out of range'')
   \<and> access_count (demo_cache ''LRU'') = 0
   \<and> read_count (demo_cache ''LRU'') = 0
   \<and> access_count (fst (snd (Cache_read (demo_cache ''LRU'') demo_store 0 16 0))) = 1
   \<and> read_count (fst (snd (Cache_read (demo_cache ''LRU'') demo_store 0 16 0))) = 1"
  by (simp add: Cache_read_def address_split_def demo_cache_def)

subsection \<open>Write misses\<close>

text \<open>
  C4. Let \<open>address\<close> be an address that \<open>address_split\<close> accepts and that lies inside the
  Memory passed to the call, and let its tag have no valid block in its set. Then
  \<open>Cache.write(address, v)\<close> returns normally, the Memory cell at \<open>address\<close> holds \<open>v\<close>
  (one Memory access, no other cell touched), and the Cache differs from before only in
  \<open>access_count\<close>, \<open>write_count\<close> and \<open>time\<close>, each one higher: \<open>hit_count\<close> and the sets
  are unchanged, so no block is created and no set filled.
\<close>

theorem write_miss_goes_around:
  assumes "address_split c address = Inr (t, index, off)"
    and "sets c index = Some s"
    and "\<not> (\<exists>b. find_block s t = Some b \<and> valid b)"
    and "0 \<le> address" and "address < size_m (h mem)"
    and "nat address < length (data_m (h mem))"
  shows "Cache_write c h mem address v =
           (Inr (),
            c\<lparr>access_count := access_count c + 1, write_count := write_count c + 1,
              time := time c + 1\<rparr>,
            h(mem := (h mem)\<lparr>access_count_m := access_count_m (h mem) + 1,
                              data_m := (data_m (h mem))[nat address := Some v]\<rparr>))"
proof -
  let ?c1 = "c\<lparr>access_count := access_count c + 1, write_count := write_count c + 1\<rparr>"
  have split: "address_split ?c1 address = Inr (t, index, off)"
    using assms(1) by simp
  have miss: "write_miss ?c1 h mem address v =
           (Inr (), ?c1\<lparr>time := time c + 1\<rparr>,
            h(mem := (h mem)\<lparr>access_count_m := access_count_m (h mem) + 1,
                              data_m := (data_m (h mem))[nat address := Some v]\<rparr>))"
    using assms(4-6) by (simp add: write_miss_def Memory_write_def Let_def)
  show ?thesis
  proof (cases "find_block s t")
    case None
    then show ?thesis using split assms(2) miss by (simp add: Cache_write_def)
  next
    case (Some b)
    then have "\<not> valid b" using assms(3) by simp
    then show ?thesis using Some split assms(2) miss by (simp add: Cache_write_def)
  qed
qed

theorem write_miss_goes_around_witness:
  "address_split (demo_cache ''FIFO'') 5 = Inr (1, 0, 1)
   \<and> sets (demo_cache ''FIFO'') 0 = Some (CacheSet_init 2 ''FIFO'' 0)
   \<and> \<not> (\<exists>b. find_block (CacheSet_init 2 ''FIFO'' 0) 1 = Some b \<and> valid b)
   \<and> (0::int) \<le> 5 \<and> 5 < size_m (demo_store 0) \<and> nat 5 < length (data_m (demo_store 0))
   \<and> Cache_write (demo_cache ''FIFO'') demo_store 0 5 7 =
           (Inr (),
            (demo_cache ''FIFO'')\<lparr>access_count := access_count (demo_cache ''FIFO'') + 1,
               write_count := write_count (demo_cache ''FIFO'') + 1,
              time := time (demo_cache ''FIFO'') + 1\<rparr>,
            demo_store(0 := (demo_store 0)\<lparr>access_count_m := access_count_m (demo_store 0) + 1,
                              data_m := (data_m (demo_store 0))[nat 5 := Some 7]\<rparr>))"
proof -
  have h1: "address_split (demo_cache ''FIFO'') 5 = Inr (1, 0, 1)"
    by (simp add: address_split_def demo_cache_def)
  have h2: "sets (demo_cache ''FIFO'') 0 = Some (CacheSet_init 2 ''FIFO'' 0)"
    by (simp add: demo_cache_def)
  have h3: "\<not> (\<exists>b. find_block (CacheSet_init 2 ''FIFO'' 0) 1 = Some b \<and> valid b)"
    by (simp add: find_block_def CacheSet_init_def)
  have h4: "(0::int) \<le> 5" by simp
  have h5: "5 < size_m (demo_store 0)" by (simp add: demo_store_def Memory_init_def)
  have h6: "nat 5 < length (data_m (demo_store 0))" by (simp add: demo_store_def Memory_init_def)
  show ?thesis
    using h1 h2 h3 h4 h5 h6
      write_miss_goes_around [of "demo_cache ''FIFO''" 5 1 0 1 "CacheSet_init 2 ''FIFO'' 0" demo_store 0 7]
    by blast
qed

subsection \<open>Read hits\<close>

text \<open>
  C10. When the tag of an accepted address has a valid block in its set, \<open>Cache.read\<close>
  leaves the store of Memory objects exactly as it was: the data and the access count of
  every Memory are the same after the call as before it.
\<close>

theorem read_hit_leaves_memory:
  assumes "address_split c address = Inr (t, index, off)"
    and "sets c index = Some s" and "find_block s t = Some b" and "valid b"
  shows "snd (snd (Cache_read c h mem address r)) = h"
proof -
  let ?c1 = "c\<lparr>access_count := access_count c + 1, read_count := read_count c + 1\<rparr>"
  have "address_split ?c1 address = Inr (t, index, off)"
    using assms(1) by simp
  then show ?thesis using assms(2-4)
    by (simp add: Cache_read_def split: prod.splits)
qed

theorem read_hit_leaves_memory_witness:
  "address_split (demo_cache_read5 ''LRU'') 4 = Inr (1, 0, 0)
   \<and> sets (demo_cache_read5 ''LRU'') 0 =
        Some ((CacheSet_init 2 ''LRU'' 0)\<lparr>blocks := [(1, demo_block 1 0 False [Some 0, Some 0])]\<rparr>)
   \<and> find_block ((CacheSet_init 2 ''LRU'' 0)\<lparr>blocks := [(1, demo_block 1 0 False [Some 0, Some 0])]\<rparr>) 1
        = Some (demo_block 1 0 False [Some 0, Some 0])
   \<and> valid (demo_block 1 0 False [Some 0, Some 0])
   \<and> snd (snd (Cache_read (demo_cache_read5 ''LRU'') demo_store 0 4 0)) = demo_store"
proof -
  let ?s = "(CacheSet_init 2 ''LRU'' 0)\<lparr>blocks := [(1, demo_block 1 0 False [Some 0, Some 0])]\<rparr>"
  have h1: "address_split (demo_cache_read5 ''LRU'') 4 = Inr (1, 0, 0)"
    by (simp add: address_split_def demo_cache_read5_def demo_cache_def)
  have h2: "sets (demo_cache_read5 ''LRU'') 0 = Some ?s"
    by (simp add: demo_cache_read5_def)
  have h3: "find_block ?s 1 = Some (demo_block 1 0 False [Some 0, Some 0])"
    by (simp add: find_block_def)
  have h4: "valid (demo_block 1 0 False [Some 0, Some 0])"
    by (simp add: demo_block_def)
  show ?thesis
    using h1 h2 h3 h4 read_hit_leaves_memory [OF h1 h2 h3 h4, of demo_store 0 0] by blast
qed

subsection \<open>The constructor and inexact set counts\<close>




subsection \<open>Counter consistency\<close>

lemma read_hit_counters:
  "read_hit c index cs t off b = (res, c') \<Longrightarrow>
     access_count c' = access_count c \<and> read_count c' = read_count c \<and> write_count c' = write_count c
     \<and> hit_count c' = hit_count c + 1 \<and> read_hit_count c' = read_hit_count c + 1
     \<and> write_hit_count c' = write_hit_count c"
  by (auto simp: read_hit_def Let_def)

lemma write_hit_counters:
  "write_hit c index cs t off d b = (res, c') \<Longrightarrow>
     access_count c' = access_count c \<and> read_count c' = read_count c \<and> write_count c' = write_count c
     \<and> hit_count c' = hit_count c + 1 \<and> read_hit_count c' = read_hit_count c
     \<and> write_hit_count c' = write_hit_count c + 1"
  by (auto simp: write_hit_def Let_def split: option.splits)

lemma read_miss_counters:
  "read_miss c h mem a r index cs t off = (res, c', h') \<Longrightarrow>
     access_count c' = access_count c \<and> read_count c' = read_count c \<and> write_count c' = write_count c
     \<and> hit_count c' = hit_count c \<and> read_hit_count c' = read_hit_count c
     \<and> write_hit_count c' = write_hit_count c"
  by (auto simp: read_miss_def Let_def split: prod.splits sum.splits option.splits)

lemma write_miss_counters:
  "write_miss c h mem a d = (res, c', h') \<Longrightarrow>
     access_count c' = access_count c \<and> read_count c' = read_count c \<and> write_count c' = write_count c
     \<and> hit_count c' = hit_count c \<and> read_hit_count c' = read_hit_count c
     \<and> write_hit_count c' = write_hit_count c"
  by (auto simp: write_miss_def Let_def split: prod.splits)

lemma Cache_read_counters:
  assumes "counters_ok c" and "Cache_read c h mem a r = (res, c', h')"
  shows "counters_ok c'"
proof -
  let ?c1 = "c\<lparr>access_count := access_count c + 1, read_count := read_count c + 1\<rparr>"
  have c1: "counters_ok ?c1" using assms(1) by (simp add: counters_ok_def)
  show ?thesis
    using assms(2) c1
    unfolding Cache_read_def Let_def
    by (auto split: sum.splits prod.splits option.splits if_splits
             dest!: read_hit_counters read_miss_counters simp: counters_ok_def)
qed

lemma Cache_write_counters:
  assumes "counters_ok c" and "Cache_write c h mem a d = (res, c', h')"
  shows "counters_ok c'"
proof -
  let ?c1 = "c\<lparr>access_count := access_count c + 1, write_count := write_count c + 1\<rparr>"
  have c1: "counters_ok ?c1" using assms(1) by (simp add: counters_ok_def)
  show ?thesis
    using assms(2) c1
    unfolding Cache_write_def Let_def
    by (auto split: sum.splits prod.splits option.splits if_splits
             dest!: write_hit_counters write_miss_counters simp: counters_ok_def)
qed

lemma do_call_counters:
  "counters_ok c \<Longrightarrow> do_call c h x = (out, c', h') \<Longrightarrow> counters_ok c'"
  by (cases x) (auto split: prod.splits sum.splits dest: Cache_read_counters Cache_write_counters)

lemma run_calls_counters:
  "counters_ok c \<Longrightarrow> run_calls c h xs = (outs, c', h') \<Longrightarrow> counters_ok c'"
proof (induction xs arbitrary: c h outs)
  case Nil
  then show ?case by simp
next
  case (Cons x xs)
  then show ?case
    by (auto split: prod.splits dest: do_call_counters)
qed

lemma Cache_init_counters: "Cache_init cs bs a p ab m = Inr c \<Longrightarrow> counters_ok c"
  by (auto simp: Cache_init_def counters_ok_def Let_def split: if_splits)

text \<open>
  C6. On a Cache the constructor returned, after any sequence of \<open>read\<close> and \<open>write\<close>
  calls (with any addresses, values and Memory objects, each call completing or raising)
  \<open>access_count = read_count + write_count\<close> and
  \<open>hit_count = read_hit_count + write_hit_count\<close>. Sequences of calls that all complete
  are among them.
\<close>

theorem counters_consistent:
  assumes "Cache_init csize bsize assoc pol abit mem = Inr c0"
    and "run_calls c0 h0 calls = (outs, c, h)"
  shows "access_count c = read_count c + write_count c
       \<and> hit_count c = read_hit_count c + write_hit_count c"
  using run_calls_counters [OF Cache_init_counters [OF assms(1)] assms(2)]
  by (simp add: counters_ok_def)

theorem counters_consistent_witness:
  "Cache_init 8 2 2 ''LRU'' 4 0 = Inr (demo_cache ''LRU'')
   \<and> access_count (fst (snd (run_calls (demo_cache ''LRU'') demo_store [Read 0 5 0, Write 0 5 7, Read 0 4 0])))
     = read_count (fst (snd (run_calls (demo_cache ''LRU'') demo_store [Read 0 5 0, Write 0 5 7, Read 0 4 0])))
       + write_count (fst (snd (run_calls (demo_cache ''LRU'') demo_store [Read 0 5 0, Write 0 5 7, Read 0 4 0])))
   \<and> hit_count (fst (snd (run_calls (demo_cache ''LRU'') demo_store [Read 0 5 0, Write 0 5 7, Read 0 4 0])))
     = read_hit_count (fst (snd (run_calls (demo_cache ''LRU'') demo_store [Read 0 5 0, Write 0 5 7, Read 0 4 0])))
       + write_hit_count (fst (snd (run_calls (demo_cache ''LRU'') demo_store [Read 0 5 0, Write 0 5 7, Read 0 4 0])))"
proof -
  let ?run = "run_calls (demo_cache ''LRU'') demo_store [Read 0 5 0, Write 0 5 7, Read 0 4 0]"
  have h1: "Cache_init 8 2 2 ''LRU'' 4 0 = Inr (demo_cache ''LRU'')"
    by (rule demo_cache_constructed) simp
  have h2: "?run = (fst ?run, fst (snd ?run), snd (snd ?run))" by simp
  show ?thesis using h1 counters_consistent [OF h1 h2] by blast
qed

subsection \<open>The choice of the victim\<close>

text \<open>
  The scan with a candidate in hand, on stamps none of which is the sentinel \<open>-1\<close>: the
  candidate stays, or the first block with the least stamp below it takes its place.
\<close>

lemma scan_min_acc:
  assumes "\<forall>x \<in> set xs. stamp (snd x) \<noteq> -1" and "temp \<noteq> -1"
  shows "(scan_min stamp xs temp et = (temp, et) \<and> (\<forall>x \<in> set xs. temp \<le> stamp (snd x)))
       \<or> (\<exists>ys t b zs. xs = ys @ (t, b) # zs \<and> scan_min stamp xs temp et = (stamp b, Some t)
             \<and> stamp b < temp
             \<and> (\<forall>x \<in> set ys. stamp b < stamp (snd x))
             \<and> (\<forall>x \<in> set zs. stamp b \<le> stamp (snd x)))"
  using assms
proof (induction xs arbitrary: temp et)
  case Nil
  then show ?case by simp
next
  case (Cons x xs)
  obtain t b where x: "x = (t, b)" by (cases x)
  have nonneg: "\<forall>x \<in> set xs. stamp (snd x) \<noteq> -1" and b0: "stamp b \<noteq> -1"
    using Cons.prems(1) x by auto
  show ?case
  proof (cases "stamp b < temp")
    case True
    have step: "scan_min stamp (x # xs) temp et = scan_min stamp xs (stamp b) (Some t)"
      using True x by simp
    from Cons.IH [OF nonneg b0, of "Some t"]
    show ?thesis
    proof (elim disjE exE conjE)
      assume same: "scan_min stamp xs (stamp b) (Some t) = (stamp b, Some t)"
        and rest: "\<forall>x \<in> set xs. stamp b \<le> stamp (snd x)"
      have "x # xs = [] @ (t, b) # xs \<and> scan_min stamp (x # xs) temp et = (stamp b, Some t)
            \<and> stamp b < temp \<and> (\<forall>x \<in> set []. stamp b < stamp (snd x))
            \<and> (\<forall>x \<in> set xs. stamp b \<le> stamp (snd x))"
        using x step same rest True by simp
      then show ?thesis
        by - (rule disjI2, rule exI[of _ "[]"], rule exI[of _ t], rule exI[of _ b],
              rule exI[of _ xs], assumption)
    next
      fix ys t' b' zs
      assume d: "xs = ys @ (t', b') # zs"
        and r: "scan_min stamp xs (stamp b) (Some t) = (stamp b', Some t')"
        and lt: "stamp b' < stamp b"
        and before: "\<forall>x \<in> set ys. stamp b' < stamp (snd x)"
        and after: "\<forall>x \<in> set zs. stamp b' \<le> stamp (snd x)"
      have "x # xs = (x # ys) @ (t', b') # zs \<and> scan_min stamp (x # xs) temp et = (stamp b', Some t')
            \<and> stamp b' < temp \<and> (\<forall>y \<in> set (x # ys). stamp b' < stamp (snd y))
            \<and> (\<forall>x \<in> set zs. stamp b' \<le> stamp (snd x))"
        using d step r lt True before after x by simp
      then show ?thesis
        by - (rule disjI2, rule exI[of _ "x # ys"], rule exI[of _ t'], rule exI[of _ b'],
              rule exI[of _ zs], assumption)
    qed
  next
    case False
    have t1: "temp \<noteq> -1" using Cons.prems(2) by simp
    have step: "scan_min stamp (x # xs) temp et = scan_min stamp xs temp et"
      using False t1 x by simp
    from Cons.IH [OF nonneg Cons.prems(2), of et]
    show ?thesis
    proof (elim disjE exE conjE)
      assume same: "scan_min stamp xs temp et = (temp, et)"
        and rest: "\<forall>x \<in> set xs. temp \<le> stamp (snd x)"
      have "scan_min stamp (x # xs) temp et = (temp, et)
            \<and> (\<forall>y \<in> set (x # xs). temp \<le> stamp (snd y))"
        using step same rest False x by simp
      then show ?thesis by (rule disjI1)
    next
      fix ys t' b' zs
      assume d: "xs = ys @ (t', b') # zs"
        and r: "scan_min stamp xs temp et = (stamp b', Some t')"
        and lt: "stamp b' < temp"
        and before: "\<forall>x \<in> set ys. stamp b' < stamp (snd x)"
        and after: "\<forall>x \<in> set zs. stamp b' \<le> stamp (snd x)"
      have "x # xs = (x # ys) @ (t', b') # zs \<and> scan_min stamp (x # xs) temp et = (stamp b', Some t')
            \<and> stamp b' < temp \<and> (\<forall>y \<in> set (x # ys). stamp b' < stamp (snd y))
            \<and> (\<forall>x \<in> set zs. stamp b' \<le> stamp (snd x))"
        using d step r lt False before after x by simp
      then show ?thesis
        by - (rule disjI2, rule exI[of _ "x # ys"], rule exI[of _ t'], rule exI[of _ b'],
              rule exI[of _ zs], assumption)
    qed
  qed
qed

text \<open>The scan from the sentinel returns the first block that has the least stamp.\<close>

lemma scan_min_first_least_no_sentinel:
  assumes "xs \<noteq> []" and "\<forall>x \<in> set xs. stamp (snd x) \<noteq> -1"
  shows "\<exists>ys t b zs. xs = ys @ (t, b) # zs \<and> scan_min stamp xs (-1) None = (stamp b, Some t)
             \<and> (\<forall>x \<in> set ys. stamp b < stamp (snd x))
             \<and> (\<forall>x \<in> set zs. stamp b \<le> stamp (snd x))"
proof -
  obtain t b rest where xs: "xs = (t, b) # rest" using assms(1) by (cases xs) auto
  have nonneg: "\<forall>x \<in> set rest. stamp (snd x) \<noteq> -1" and b0: "stamp b \<noteq> -1"
    using assms(2) xs by auto
  have step: "scan_min stamp xs (-1) None = scan_min stamp rest (stamp b) (Some t)"
    using xs by simp
  from scan_min_acc [OF nonneg b0, of "Some t"]
  show ?thesis
  proof (elim disjE exE conjE)
    assume same: "scan_min stamp rest (stamp b) (Some t) = (stamp b, Some t)"
      and r: "\<forall>x \<in> set rest. stamp b \<le> stamp (snd x)"
    have "xs = [] @ (t, b) # rest \<and> scan_min stamp xs (-1) None = (stamp b, Some t)
          \<and> (\<forall>x \<in> set []. stamp b < stamp (snd x))
          \<and> (\<forall>x \<in> set rest. stamp b \<le> stamp (snd x))"
      using xs step same r by simp
    then show ?thesis
      by - (rule exI[of _ "[]"], rule exI[of _ t], rule exI[of _ b], rule exI[of _ rest], assumption)
  next
    fix ys t' b' zs
    assume d: "rest = ys @ (t', b') # zs"
      and r: "scan_min stamp rest (stamp b) (Some t) = (stamp b', Some t')"
      and lt: "stamp b' < stamp b"
      and before: "\<forall>x \<in> set ys. stamp b' < stamp (snd x)"
      and after: "\<forall>x \<in> set zs. stamp b' \<le> stamp (snd x)"
    have "xs = ((t, b) # ys) @ (t', b') # zs \<and> scan_min stamp xs (-1) None = (stamp b', Some t')
          \<and> (\<forall>y \<in> set ((t, b) # ys). stamp b' < stamp (snd y))
          \<and> (\<forall>x \<in> set zs. stamp b' \<le> stamp (snd x))"
      using d xs step r lt before after by simp
    then show ?thesis
      by - (rule exI[of _ "(t, b) # ys"], rule exI[of _ t'], rule exI[of _ b'],
            rule exI[of _ zs], assumption)
  qed
qed

lemma scan_min_first_least:
  assumes "xs \<noteq> []" and "\<forall>x \<in> set xs. 0 \<le> stamp (snd x)"
  shows "\<exists>ys t b zs. xs = ys @ (t, b) # zs \<and> scan_min stamp xs (-1) None = (stamp b, Some t)
             \<and> (\<forall>x \<in> set ys. stamp b < stamp (snd x))
             \<and> (\<forall>x \<in> set zs. stamp b \<le> stamp (snd x))"
proof -
  have "\<forall>x \<in> set xs. stamp (snd x) \<noteq> -1" using assms(2) by force
  then show ?thesis by (rule scan_min_first_least_no_sentinel [OF assms(1)])
qed

lemma map_of_middle:
  "distinct (map fst (ys @ (t, b) # zs)) \<Longrightarrow> map_of (ys @ (t, b) # zs) t = Some b"
  by (induction ys) (auto simp: rev_image_eqI)

lemma delete_middle:
  "distinct (map fst (ys @ (t, b) # zs)) \<Longrightarrow> AList.delete t (ys @ (t, b) # zs) = ys @ zs"
  by (induction ys) (auto simp: rev_image_eqI)

lemma choose_evict_tag_first_least_no_sentinel:
  assumes "policy_s s = ''FIFO'' \<and> stamp = load_time \<or> policy_s s = ''LRU'' \<and> stamp = last_time"
    and "blocks s = ys @ (t, b) # zs"
    and "\<forall>x \<in> set (blocks s). stamp (snd x) \<noteq> -1"
    and "\<forall>x \<in> set ys. stamp b < stamp (snd x)"
    and "\<forall>x \<in> set zs. stamp b \<le> stamp (snd x)"
  shows "choose_evict_tag s r = Some t"
proof -
  have ne: "blocks s \<noteq> []" using assms(2) by simp
  obtain ys' t' b' zs' where d: "blocks s = ys' @ (t', b') # zs'"
    and sc: "scan_min stamp (blocks s) (-1) None = (stamp b', Some t')"
    and before: "\<forall>x \<in> set ys'. stamp b' < stamp (snd x)"
    and after: "\<forall>x \<in> set zs'. stamp b' \<le> stamp (snd x)"
    using scan_min_first_least_no_sentinel [OF ne assms(3)] by blast
  have "length ys' = length ys"
  proof (rule ccontr)
    assume ne: "length ys' \<noteq> length ys"
    have eq: "ys' @ (t', b') # zs' = ys @ (t, b) # zs" using d assms(2) by simp
    show False
    proof (cases "length ys' < length ys")
      case True
      have "(ys @ (t, b) # zs) ! length ys' = (t', b')" using eq [symmetric] by simp
      then have "ys ! length ys' = (t', b')" using True by (simp add: nth_append)
      then have 1: "(t', b') \<in> set ys" using True by (metis nth_mem)
      have "(ys' @ (t', b') # zs') ! length ys = (t, b)" using eq by simp
      then have "((t', b') # zs') ! (length ys - length ys') = (t, b)"
        using True by (simp add: nth_append)
      then have "zs' ! (length ys - length ys' - 1) = (t, b)"
        using True by (simp add: nth_Cons')
      moreover have "length ys - length ys' - 1 < length zs'"
        using True arg_cong [OF eq, of length] by simp
      ultimately have 2: "(t, b) \<in> set zs'" by (metis nth_mem)
      from 1 assms(4) have "stamp b < stamp b'" by auto
      moreover from 2 after have "stamp b' \<le> stamp b" by auto
      ultimately show False by simp
    next
      case False
      then have lt: "length ys < length ys'" using ne by simp
      have "(ys' @ (t', b') # zs') ! length ys = (t, b)" using eq by simp
      then have "ys' ! length ys = (t, b)" using lt by (simp add: nth_append)
      then have 1: "(t, b) \<in> set ys'" using lt by (metis nth_mem)
      have "(ys @ (t, b) # zs) ! length ys' = (t', b')" using eq [symmetric] by simp
      then have "((t, b) # zs) ! (length ys' - length ys) = (t', b')"
        using lt by (simp add: nth_append)
      then have "zs ! (length ys' - length ys - 1) = (t', b')"
        using lt by (simp add: nth_Cons')
      moreover have "length ys' - length ys - 1 < length zs"
        using lt arg_cong [OF eq, of length] by simp
      ultimately have 2: "(t', b') \<in> set zs" by (metis nth_mem)
      from 1 before have "stamp b' < stamp b" by auto
      moreover from 2 assms(5) have "stamp b \<le> stamp b'" by auto
      ultimately show False by simp
    qed
  qed
  then have "t' = t" using d assms(2) by simp
  then show ?thesis using assms(1) sc by (auto simp: choose_evict_tag_def)
qed

lemma choose_evict_tag_first_least:
  assumes "policy_s s = ''FIFO'' \<and> stamp = load_time \<or> policy_s s = ''LRU'' \<and> stamp = last_time"
    and "blocks s = ys @ (t, b) # zs"
    and "\<forall>x \<in> set (blocks s). 0 \<le> stamp (snd x)"
    and "\<forall>x \<in> set ys. stamp b < stamp (snd x)"
    and "\<forall>x \<in> set zs. stamp b \<le> stamp (snd x)"
  shows "choose_evict_tag s r = Some t"
proof -
  have "\<forall>x \<in> set (blocks s). stamp (snd x) \<noteq> -1" using assms(3) by force
  then show ?thesis by (rule choose_evict_tag_first_least_no_sentinel [OF assms(1,2) _ assms(4,5)])
qed

lemma write_back_effect:
  assumes "0 \<le> base_address b" and "length (data_m m) = nat (size_m m)"
    and "\<forall>i \<in> set js. base_address b + int i < size_m m \<longrightarrow> i < length (data b)"
  shows "\<exists>m'. write_back b js m = (None, m') \<and> size_m m' = size_m m
           \<and> length (data_m m') = length (data_m m)
           \<and> access_count_m m' =
               access_count_m m + int (length [i \<leftarrow> js. base_address b + int i < size_m m])
           \<and> (\<forall>a < length (data_m m). data_m m' ! a =
                 (if \<exists>i \<in> set js. int a = base_address b + int i
                  then data b ! nat (int a - base_address b) else data_m m ! a))"
  using assms
proof (induction js arbitrary: m)
  case Nil
  then show ?case by simp
next
  case (Cons i js)
  let ?addr = "base_address b + int i"
  show ?case
  proof (cases "?addr < size_m m")
    case False
    have rest: "\<forall>i \<in> set js. base_address b + int i < size_m m \<longrightarrow> i < length (data b)"
      using Cons.prems(3) by simp
    obtain m' where m': "write_back b js m = (None, m')" "size_m m' = size_m m"
      "length (data_m m') = length (data_m m)"
      "access_count_m m' =
         access_count_m m + int (length [i \<leftarrow> js. base_address b + int i < size_m m])"
      "\<forall>a < length (data_m m). data_m m' ! a =
                 (if \<exists>i \<in> set js. int a = base_address b + int i
                  then data b ! nat (int a - base_address b) else data_m m ! a)"
      using Cons.IH [OF Cons.prems(1,2) rest] by blast
    have wb: "write_back b (i # js) m = (None, m')" using False m'(1) by simp
    have cnt: "access_count_m m' =
         access_count_m m + int (length [j \<leftarrow> i # js. base_address b + int j < size_m m])"
      using False m'(4) by simp
    have cells: "\<forall>a < length (data_m m). data_m m' ! a =
                 (if \<exists>j \<in> set (i # js). int a = base_address b + int j
                  then data b ! nat (int a - base_address b) else data_m m ! a)"
    proof (intro allI impI)
      fix a assume a: "a < length (data_m m)"
      have "int a \<noteq> ?addr" using a False Cons.prems(2) by linarith
      then show "data_m m' ! a =
                 (if \<exists>j \<in> set (i # js). int a = base_address b + int j
                  then data b ! nat (int a - base_address b) else data_m m ! a)"
        using m'(5) a by simp
    qed
    show ?thesis using wb m'(2,3) cnt cells by blast
  next
    case True
    have i: "i < length (data b)" using Cons.prems(3) True by simp
    have inlist: "nat ?addr < length (data_m m)" using True Cons.prems(1,2) by linarith
    let ?m1 = "m\<lparr>access_count_m := access_count_m m + 1,
                  data_m := (data_m m)[nat ?addr := data b ! i]\<rparr>"
    have mw: "Memory_write m ?addr (data b ! i) = (Inr (), ?m1)"
      using True Cons.prems(1) inlist by (simp add: Memory_write_def Let_def)
    have len1: "length (data_m ?m1) = nat (size_m ?m1)" using Cons.prems(2) by simp
    have rest: "\<forall>i \<in> set js. base_address b + int i < size_m ?m1 \<longrightarrow> i < length (data b)"
      using Cons.prems(3) by simp
    obtain m' where m': "write_back b js ?m1 = (None, m')" "size_m m' = size_m ?m1"
      "length (data_m m') = length (data_m ?m1)"
      "access_count_m m' =
         access_count_m ?m1 + int (length [i \<leftarrow> js. base_address b + int i < size_m ?m1])"
      "\<forall>a < length (data_m ?m1). data_m m' ! a =
                 (if \<exists>i \<in> set js. int a = base_address b + int i
                  then data b ! nat (int a - base_address b) else data_m ?m1 ! a)"
      using Cons.IH [OF Cons.prems(1) len1 rest] by blast
    have wb: "write_back b (i # js) m = (None, m')"
      using True i mw m'(1) by (simp add: Let_def)
    have cnt: "access_count_m m' =
         access_count_m m + int (length [j \<leftarrow> i # js. base_address b + int j < size_m m])"
      using True m'(4) by simp
    have cells: "\<forall>a < length (data_m m). data_m m' ! a =
                 (if \<exists>j \<in> set (i # js). int a = base_address b + int j
                  then data b ! nat (int a - base_address b) else data_m m ! a)"
    proof (intro allI impI)
      fix a assume a: "a < length (data_m m)"
      show "data_m m' ! a =
                 (if \<exists>j \<in> set (i # js). int a = base_address b + int j
                  then data b ! nat (int a - base_address b) else data_m m ! a)"
      proof (cases "\<exists>j \<in> set js. int a = base_address b + int j")
        case True
        then show ?thesis using m'(5) a by simp
      next
        case nojs: False
        have step: "data_m m' ! a = (data_m m)[nat ?addr := data b ! i] ! a"
          using m'(5) a nojs by simp
        show ?thesis
        proof (cases "int a = ?addr")
          case True
          then have "nat ?addr = a" by simp
          moreover have "nat (int a - base_address b) = i" using True by simp
          ultimately show ?thesis using step a True by simp
        next
          case False
          then have "nat ?addr \<noteq> a" using Cons.prems(1) by linarith
          then show ?thesis using step nojs False by simp
        qed
      qed
    qed
    show ?thesis using wb m'(2,3) cnt cells by auto
  qed
qed

subsection \<open>Eviction and write-back\<close>

lemma in_range_offsets:
  "(\<exists>i \<in> set [0..<nat n]. int a = base + int i) \<longleftrightarrow> base \<le> int a \<and> int a < base + n"
proof
  assume "\<exists>i \<in> set [0..<nat n]. int a = base + int i"
  then show "base \<le> int a \<and> int a < base + n" by auto
next
  assume r: "base \<le> int a \<and> int a < base + n"
  then have "nat (int a - base) \<in> set [0..<nat n]" by auto
  moreover have "int a = base + int (nat (int a - base))" using r by simp
  ultimately show "\<exists>i \<in> set [0..<nat n]. int a = base + int i" by blast
qed

lemma evict_block_effect:
  assumes "blocks s \<noteq> []" and "choose_evict_tag s r = Some t" and "map_of (blocks s) t = Some b"
    and "dirty b \<longrightarrow> write_back_ready b (h (memory_s s))"
  shows "\<exists>m'. evict_block s h r = (None, s\<lparr>blocks := AList.delete t (blocks s)\<rparr>, h(memory_s s := m'))
           \<and> (\<not> dirty b \<longrightarrow> m' = h (memory_s s))
           \<and> size_m m' = size_m (h (memory_s s))
           \<and> length (data_m m') = length (data_m (h (memory_s s)))
           \<and> (dirty b \<longrightarrow>
                access_count_m m' = access_count_m (h (memory_s s))
                  + int (length [i \<leftarrow> [0..<nat (block_size_b b)].
                                   base_address b + int i < size_m (h (memory_s s))])
                \<and> (\<forall>a < length (data_m (h (memory_s s))). data_m m' ! a =
                     (if base_address b \<le> int a \<and> int a < base_address b + block_size_b b
                      then data b ! nat (int a - base_address b)
                      else data_m (h (memory_s s)) ! a)))"
proof (cases "dirty b \<and> data b \<noteq> []")
  case True
  let ?m = "h (memory_s s)"
  have ready: "write_back_ready b ?m" using True assms(4) by simp
  have pre: "0 \<le> base_address b" "length (data_m ?m) = nat (size_m ?m)"
    "\<forall>i \<in> set [0..<nat (block_size_b b)]. base_address b + int i < size_m ?m \<longrightarrow> i < length (data b)"
    using ready by (simp_all add: write_back_ready_def)
  obtain m' where m': "write_back b [0..<nat (block_size_b b)] ?m = (None, m')"
      "size_m m' = size_m ?m" "length (data_m m') = length (data_m ?m)"
      "access_count_m m' = access_count_m ?m
         + int (length [i \<leftarrow> [0..<nat (block_size_b b)]. base_address b + int i < size_m ?m])"
      "\<forall>a < length (data_m ?m). data_m m' ! a =
         (if \<exists>i \<in> set [0..<nat (block_size_b b)]. int a = base_address b + int i
          then data b ! nat (int a - base_address b) else data_m ?m ! a)"
    using write_back_effect [OF pre] by blast
  have ev: "evict_block s h r = (None, s\<lparr>blocks := AList.delete t (blocks s)\<rparr>, h(memory_s s := m'))"
    using assms(1-3) True m'(1) by (simp add: evict_block_def)
  have cells: "\<forall>a < length (data_m ?m). data_m m' ! a =
         (if base_address b \<le> int a \<and> int a < base_address b + block_size_b b
          then data b ! nat (int a - base_address b) else data_m ?m ! a)"
    using m'(5) unfolding in_range_offsets .
  show ?thesis using ev True m'(2,3,4) cells by blast
next
  case False
  let ?m = "h (memory_s s)"
  have ev: "evict_block s h r = (None, s\<lparr>blocks := AList.delete t (blocks s)\<rparr>, h(memory_s s := ?m))"
    using assms(1-3) False by (auto simp: evict_block_def)
  have rest: "dirty b \<longrightarrow>
                access_count_m ?m = access_count_m ?m
                  + int (length [i \<leftarrow> [0..<nat (block_size_b b)]. base_address b + int i < size_m ?m])
                \<and> (\<forall>a < length (data_m ?m). data_m ?m ! a =
                     (if base_address b \<le> int a \<and> int a < base_address b + block_size_b b
                      then data b ! nat (int a - base_address b)
                      else data_m ?m ! a))"
  proof
    assume d: "dirty b"
    then have empty: "data b = []" using False by simp
    have ready: "write_back_ready b ?m" using d assms(4) by simp
    have none: "\<forall>i < nat (block_size_b b). \<not> base_address b + int i < size_m ?m"
      using ready empty by (auto simp: write_back_ready_def)
    then have "[i \<leftarrow> [0..<nat (block_size_b b)]. base_address b + int i < size_m ?m] = []"
      by (auto simp: filter_empty_conv)
    moreover have "\<forall>a < length (data_m ?m).
        \<not> (base_address b \<le> int a \<and> int a < base_address b + block_size_b b)"
    proof (intro allI impI notI)
      fix a assume a: "a < length (data_m ?m)"
        and r: "base_address b \<le> int a \<and> int a < base_address b + block_size_b b"
      have "nat (int a - base_address b) < nat (block_size_b b)" using r by linarith
      moreover have "base_address b + int (nat (int a - base_address b)) < size_m ?m"
        using a r ready by (simp add: write_back_ready_def)
      ultimately show False using none by blast
    qed
    ultimately show "access_count_m ?m = access_count_m ?m
                  + int (length [i \<leftarrow> [0..<nat (block_size_b b)]. base_address b + int i < size_m ?m])
                \<and> (\<forall>a < length (data_m ?m). data_m ?m ! a =
                     (if base_address b \<le> int a \<and> int a < base_address b + block_size_b b
                      then data b ! nat (int a - base_address b)
                      else data_m ?m ! a))"
      by auto
  qed
  show ?thesis
    by (rule exI[of _ ?m]) (use ev rest in simp)
qed

text \<open>
  C3. Let \<open>evict_block\<close> choose the block \<open>b\<close> (tag \<open>t\<close>) of a set as its victim. If \<open>b\<close> is
  not dirty, the block is removed and the store of Memory objects is unchanged: no
  Memory write happens. If \<open>b\<close> is dirty (and the write-back can run: its base address is not
  negative, it holds a word for every offset that lies in the Memory, and the Memory's list
  has \<open>size\<close> cells), the block is removed and only the set's Memory changes: the cell at
  \<open>base_address + offset\<close> holds \<open>data[offset]\<close> for every offset in \<open>[0, block_size)\<close> whose
  address is a cell of the Memory, every other cell is as before, and the Memory's access
  count grows by the number of words written; offsets whose address is not below
  \<open>memory.size\<close> are skipped.
\<close>

theorem evict_writes_back_dirty_victim:
  assumes "blocks s \<noteq> []" and "choose_evict_tag s r = Some t" and "map_of (blocks s) t = Some b"
  shows "(\<not> dirty b \<longrightarrow> evict_block s h r = (None, s\<lparr>blocks := AList.delete t (blocks s)\<rparr>, h))
       \<and> (dirty b \<and> write_back_ready b (h (memory_s s)) \<longrightarrow>
            (\<exists>m'. evict_block s h r =
                     (None, s\<lparr>blocks := AList.delete t (blocks s)\<rparr>, h(memory_s s := m'))
              \<and> size_m m' = size_m (h (memory_s s))
              \<and> length (data_m m') = length (data_m (h (memory_s s)))
              \<and> access_count_m m' = access_count_m (h (memory_s s))
                  + int (length [i \<leftarrow> [0..<nat (block_size_b b)].
                                   base_address b + int i < size_m (h (memory_s s))])
              \<and> (\<forall>a < length (data_m (h (memory_s s))). data_m m' ! a =
                     (if base_address b \<le> int a \<and> int a < base_address b + block_size_b b
                      then data b ! nat (int a - base_address b)
                      else data_m (h (memory_s s)) ! a))))"
proof (intro conjI impI)
  assume clean: "\<not> dirty b"
  then have "dirty b \<longrightarrow> write_back_ready b (h (memory_s s))" by simp
  from evict_block_effect [of s r t b h, OF assms this]
  obtain m' where "evict_block s h r = (None, s\<lparr>blocks := AList.delete t (blocks s)\<rparr>, h(memory_s s := m'))"
    and "\<not> dirty b \<longrightarrow> m' = h (memory_s s)" by blast
  then show "evict_block s h r = (None, s\<lparr>blocks := AList.delete t (blocks s)\<rparr>, h)"
    using clean by simp
next
  assume d: "dirty b \<and> write_back_ready b (h (memory_s s))"
  then have "dirty b \<longrightarrow> write_back_ready b (h (memory_s s))" by simp
  from evict_block_effect [of s r t b h, OF assms this] d
  show "\<exists>m'. evict_block s h r =
                     (None, s\<lparr>blocks := AList.delete t (blocks s)\<rparr>, h(memory_s s := m'))
              \<and> size_m m' = size_m (h (memory_s s))
              \<and> length (data_m m') = length (data_m (h (memory_s s)))
              \<and> access_count_m m' = access_count_m (h (memory_s s))
                  + int (length [i \<leftarrow> [0..<nat (block_size_b b)].
                                   base_address b + int i < size_m (h (memory_s s))])
              \<and> (\<forall>a < length (data_m (h (memory_s s))). data_m m' ! a =
                     (if base_address b \<le> int a \<and> int a < base_address b + block_size_b b
                      then data b ! nat (int a - base_address b)
                      else data_m (h (memory_s s)) ! a))"
    by blast
qed

theorem evict_writes_back_dirty_victim_witness:
  "blocks (demo_set ''FIFO'' [(0, demo_block 0 0 True [Some 0, Some 7]),
                              (1, demo_block 1 2 False [Some 0, Some 0])]) \<noteq> []
   \<and> choose_evict_tag (demo_set ''FIFO'' [(0, demo_block 0 0 True [Some 0, Some 7]),
                              (1, demo_block 1 2 False [Some 0, Some 0])]) 0 = Some 0
   \<and> map_of (blocks (demo_set ''FIFO'' [(0, demo_block 0 0 True [Some 0, Some 7]),
                              (1, demo_block 1 2 False [Some 0, Some 0])])) 0
       = Some (demo_block 0 0 True [Some 0, Some 7])
   \<and> dirty (demo_block 0 0 True [Some 0, Some 7])
   \<and> write_back_ready (demo_block 0 0 True [Some 0, Some 7]) (demo_store 0)
   \<and> (\<exists>m'. evict_block (demo_set ''FIFO'' [(0, demo_block 0 0 True [Some 0, Some 7]),
                              (1, demo_block 1 2 False [Some 0, Some 0])]) demo_store 0 =
              (None, (demo_set ''FIFO'' [(0, demo_block 0 0 True [Some 0, Some 7]),
                              (1, demo_block 1 2 False [Some 0, Some 0])])
                        \<lparr>blocks := [(1, demo_block 1 2 False [Some 0, Some 0])]\<rparr>,
               demo_store(0 := m'))
            \<and> access_count_m m' = 2 \<and> data_m m' ! 0 = Some 0 \<and> data_m m' ! 1 = Some 7
            \<and> data_m m' ! 2 = None)
   \<and> evict_block (demo_set ''FIFO'' [(1, demo_block 1 0 False [Some 0, Some 0])]) demo_store 0
       = (None, (demo_set ''FIFO'' [(1, demo_block 1 0 False [Some 0, Some 0])])\<lparr>blocks := []\<rparr>,
          demo_store)"
proof -
  let ?b0 = "demo_block 0 0 True [Some 0, Some 7]" and ?b1 = "demo_block 1 2 False [Some 0, Some 0]"
  let ?s = "demo_set ''FIFO'' [(0, ?b0), (1, ?b1)]"
  let ?c1 = "demo_block 1 0 False [Some 0, Some 0]"
  let ?s1 = "demo_set ''FIFO'' [(1, ?c1)]"
  have h1: "blocks ?s \<noteq> []" by (simp add: demo_set_def)
  have h2: "choose_evict_tag ?s 0 = Some 0"
    by (simp add: choose_evict_tag_def demo_set_def demo_block_def CacheSet_init_def)
  have h3: "map_of (blocks ?s) 0 = Some ?b0" by (simp add: demo_set_def)
  have d: "dirty ?b0" by (simp add: demo_block_def)
  have ms: "memory_s ?s = 0" by (simp add: demo_set_def CacheSet_init_def)
  have rdy: "write_back_ready ?b0 (demo_store 0)"
    by (auto simp: write_back_ready_def demo_block_def demo_store_def Memory_init_def)
  have k1: "blocks ?s1 \<noteq> []" by (simp add: demo_set_def)
  have k2: "choose_evict_tag ?s1 0 = Some 1"
    by (simp add: choose_evict_tag_def demo_set_def demo_block_def CacheSet_init_def)
  have k3: "map_of (blocks ?s1) 1 = Some ?c1" by (simp add: demo_set_def)
  have c: "\<not> dirty ?c1" by (simp add: demo_block_def)
  have del: "AList.delete 0 (blocks ?s) = [(1, ?b1)]" by (simp add: demo_set_def)
  have del1: "AList.delete 1 (blocks ?s1) = []" by (simp add: demo_set_def)
  have upt: "[0..<nat (block_size_b ?b0)] = [0, 1]" by (simp add: demo_block_def upt2)
  have cnt: "int (length [i \<leftarrow> [0..<nat (block_size_b ?b0)].
                base_address ?b0 + int i < size_m (demo_store 0)]) = 2"
    unfolding upt by (simp add: demo_block_def demo_store_def Memory_init_def)
  have vals: "access_count_m (demo_store 0) = 0" "length (data_m (demo_store 0)) = 16"
    "data_m (demo_store 0) ! 2 = None" "base_address ?b0 = 0" "block_size_b ?b0 = 2"
    "data ?b0 = [Some 0, Some 7]"
    by (simp_all add: demo_store_def Memory_init_def demo_block_def)
  have rdy': "dirty ?b0 \<and> write_back_ready ?b0 (demo_store (memory_s ?s))"
    using d rdy ms by simp
  from evict_writes_back_dirty_victim [of ?s 0 0 ?b0 demo_store, OF h1 h2 h3,
      THEN conjunct2, THEN mp, OF rdy']
  obtain m' where m': "evict_block ?s demo_store 0 =
        (None, ?s\<lparr>blocks := AList.delete 0 (blocks ?s)\<rparr>, demo_store(memory_s ?s := m'))"
    "access_count_m m' = access_count_m (demo_store (memory_s ?s))
        + int (length [i \<leftarrow> [0..<nat (block_size_b ?b0)].
                base_address ?b0 + int i < size_m (demo_store (memory_s ?s))])"
    "\<forall>a < length (data_m (demo_store (memory_s ?s))). data_m m' ! a =
        (if base_address ?b0 \<le> int a \<and> int a < base_address ?b0 + block_size_b ?b0
         then data ?b0 ! nat (int a - base_address ?b0)
         else data_m (demo_store (memory_s ?s)) ! a)"
    by blast
  have a0: "data_m m' ! 0 = Some 0" using m'(3) [rule_format, of 0] by (simp add: ms vals)
  have a1: "data_m m' ! 1 = Some 7" using m'(3) [rule_format, of 1] by (simp add: ms vals)
  have a2: "data_m m' ! 2 = None" using m'(3) [rule_format, of 2] by (simp add: ms vals)
  have ac: "access_count_m m' = 2" using m'(2) cnt by (simp add: ms vals)
  have dirty_part: "\<exists>m'. evict_block ?s demo_store 0 =
              (None, ?s\<lparr>blocks := [(1, ?b1)]\<rparr>, demo_store(0 := m'))
            \<and> access_count_m m' = 2 \<and> data_m m' ! 0 = Some 0 \<and> data_m m' ! 1 = Some 7
            \<and> data_m m' ! 2 = None"
    using m'(1) a0 a1 a2 ac unfolding del ms by blast
  have clean_part: "evict_block ?s1 demo_store 0 = (None, ?s1\<lparr>blocks := []\<rparr>, demo_store)"
    using evict_writes_back_dirty_victim [of ?s1 0 1 ?c1 demo_store, OF k1 k2 k3] c
    unfolding del1 by blast
  show ?thesis using h1 h2 h3 d rdy dirty_part clean_part by blast
qed

subsection \<open>Ties between stamps\<close>

lemma add_block_evicts_first_least:
  assumes "policy_s s = ''FIFO'' \<and> stamp = load_time \<or> policy_s s = ''LRU'' \<and> stamp = last_time"
    and "associativity_s s \<le> int (length (blocks s))"
    and "blocks s = ys @ (t, b) # zs" and "distinct (map fst (blocks s))"
    and "\<forall>x \<in> set (blocks s). 0 \<le> stamp (snd x)"
    and "\<forall>x \<in> set ys. stamp b < stamp (snd x)"
    and "\<forall>x \<in> set zs. stamp b \<le> stamp (snd x)"
    and "dirty b \<longrightarrow> write_back_ready b (h (memory_s s))"
  shows "\<exists>m'. add_block s h nb r =
           (None, s\<lparr>blocks := AList.update (tag nb) nb (ys @ zs)\<rparr>, h(memory_s s := m'))
         \<and> (\<not> dirty b \<longrightarrow> m' = h (memory_s s))
         \<and> size_m m' = size_m (h (memory_s s))
         \<and> length (data_m m') = length (data_m (h (memory_s s)))"
proof -
  have ne: "blocks s \<noteq> []" using assms(3) by simp
  have ch: "choose_evict_tag s r = Some t"
    by (rule choose_evict_tag_first_least [OF assms(1,3,5,6,7)])
  have mo: "map_of (blocks s) t = Some b" using assms(3,4) map_of_middle by metis
  have del: "AList.delete t (blocks s) = ys @ zs" using assms(3,4) delete_middle by metis
  obtain m' where ev: "evict_block s h r =
        (None, s\<lparr>blocks := AList.delete t (blocks s)\<rparr>, h(memory_s s := m'))"
    and m': "\<not> dirty b \<longrightarrow> m' = h (memory_s s)" "size_m m' = size_m (h (memory_s s))"
      "length (data_m m') = length (data_m (h (memory_s s)))"
    using evict_block_effect [of s r t b h, OF ne ch mo assms(8)] by blast
  have "add_block s h nb r =
           (None, s\<lparr>blocks := AList.update (tag nb) nb (ys @ zs)\<rparr>, h(memory_s s := m'))"
    using assms(2) ev del by (simp add: add_block_def)
  then show ?thesis using m' by blast
qed





subsection \<open>Well-formed states are preserved\<close>

lemma update_fresh: "k \<notin> fst ` set al \<Longrightarrow> AList.update k v al = al @ [(k, v)]"
  by (induction al) auto

lemma map_of_None_fresh: "map_of al k = None \<Longrightarrow> k \<notin> fst ` set al"
  by (simp add: map_of_eq_None_iff)

lemma key_split:
  assumes "k \<in> fst ` set al"
  shows "\<exists>ys v zs. al = ys @ (k, v) # zs"
proof -
  obtain v where "(k, v) \<in> set al" using assms by auto
  then show ?thesis by (metis split_list)
qed

lemma block_ok_write_back_ready:
  assumes "block_ok c i x" and "mem_ok (address_bit c) m" and "0 < block_size c"
    and "0 < set_count c" and "0 \<le> i"
  shows "write_back_ready (snd x) m"
proof -
  have "0 \<le> fst x * set_count c + i" using assms by (simp add: block_ok_def)
  then have "0 \<le> base_address (snd x)" using assms(1,3) by (simp add: block_ok_def)
  then show ?thesis using assms(1,2) by (simp add: write_back_ready_def block_ok_def mem_ok_def)
qed

text \<open>The victim of a full set whose blocks are in order: some key of the set.\<close>

lemma choose_evict_tag_is_key:
  assumes "blocks s \<noteq> []" and "policy_s s \<in> set [''FIFO'', ''LRU'', ''RANDOM'']"
    and "\<forall>x \<in> set (blocks s). 0 \<le> load_time (snd x) \<and> 0 \<le> last_time (snd x)"
  shows "\<exists>vt. choose_evict_tag s r = Some vt \<and> vt \<in> fst ` set (blocks s)"
proof -
  consider "policy_s s = ''RANDOM''" | "policy_s s = ''FIFO''" | "policy_s s = ''LRU''"
    using assms(2) by auto
  then show ?thesis
  proof cases
    case 1
    have "r mod length (blocks s) < length (blocks s)" using assms(1) by simp
    then have "map fst (blocks s) ! (r mod length (blocks s)) \<in> set (map fst (blocks s))"
      by (metis length_map nth_mem)
    then show ?thesis using 1 by (simp add: choose_evict_tag_def)
  next
    case 2
    have nn: "\<forall>x \<in> set (blocks s). 0 \<le> load_time (snd x)" using assms(3) by simp
    obtain ys t b zs where d: "blocks s = ys @ (t, b) # zs"
      and sc: "scan_min load_time (blocks s) (-1) None = (load_time b, Some t)"
      using scan_min_first_least [OF assms(1) nn] by blast
    have "t \<in> fst ` set (blocks s)" unfolding d by force
    then show ?thesis using 2 sc by (simp add: choose_evict_tag_def)
  next
    case 3
    have nn: "\<forall>x \<in> set (blocks s). 0 \<le> last_time (snd x)" using assms(3) by simp
    obtain ys t b zs where d: "blocks s = ys @ (t, b) # zs"
      and sc: "scan_min last_time (blocks s) (-1) None = (last_time b, Some t)"
      using scan_min_first_least [OF assms(1) nn] by blast
    have "t \<in> fst ` set (blocks s)" unfolding d by force
    then show ?thesis using 3 sc by (simp add: choose_evict_tag_def)
  qed
qed

lemma add_block_fresh:
  assumes "distinct (map fst (blocks s))"
    and "policy_s s \<in> set [''FIFO'', ''LRU'', ''RANDOM'']"
    and "0 < associativity_s s"
    and "\<forall>x \<in> set (blocks s). 0 \<le> load_time (snd x) \<and> 0 \<le> last_time (snd x)
           \<and> write_back_ready (snd x) (h (memory_s s))"
    and "tag nb \<notin> fst ` set (blocks s)"
  shows "\<exists>m' bs'. add_block s h nb r =
             (None, s\<lparr>blocks := bs' @ [(tag nb, nb)]\<rparr>, h(memory_s s := m'))
         \<and> size_m m' = size_m (h (memory_s s))
         \<and> length (data_m m') = length (data_m (h (memory_s s)))
         \<and> (if associativity_s s \<le> int (length (blocks s))
            then \<exists>ys vt vb zs. blocks s = ys @ (vt, vb) # zs
                   \<and> choose_evict_tag s r = Some vt \<and> bs' = ys @ zs
            else bs' = blocks s)"
proof (cases "associativity_s s \<le> int (length (blocks s))")
  case False
  have "add_block s h nb r =
          (None, s\<lparr>blocks := blocks s @ [(tag nb, nb)]\<rparr>, h(memory_s s := h (memory_s s)))"
    using False assms(5) by (simp add: add_block_def update_fresh)
  then show ?thesis using False
    by (intro exI[of _ "h (memory_s s)"] exI[of _ "blocks s"]) simp
next
  case True
  then have ne: "blocks s \<noteq> []" using assms(3) by auto
  have nn: "\<forall>x \<in> set (blocks s). 0 \<le> load_time (snd x) \<and> 0 \<le> last_time (snd x)"
    using assms(4) by simp
  obtain vt where ch: "choose_evict_tag s r = Some vt" and key: "vt \<in> fst ` set (blocks s)"
    using choose_evict_tag_is_key [OF ne assms(2) nn] by blast
  obtain ys vb zs where d: "blocks s = ys @ (vt, vb) # zs" using key_split [OF key] by blast
  have dist: "distinct (map fst (ys @ (vt, vb) # zs))" using assms(1) d by simp
  have mo: "map_of (blocks s) vt = Some vb" unfolding d by (rule map_of_middle [OF dist])
  have del: "AList.delete vt (blocks s) = ys @ zs" unfolding d by (rule delete_middle [OF dist])
  have "(vt, vb) \<in> set (blocks s)" unfolding d by simp
  then have rdy: "dirty vb \<longrightarrow> write_back_ready vb (h (memory_s s))" using assms(4) by force
  obtain m' where ev: "evict_block s h r =
        (None, s\<lparr>blocks := AList.delete vt (blocks s)\<rparr>, h(memory_s s := m'))"
    and m': "size_m m' = size_m (h (memory_s s))"
      "length (data_m m') = length (data_m (h (memory_s s)))"
    using evict_block_effect [of s r vt vb h, OF ne ch mo rdy] by blast
  have fresh: "tag nb \<notin> fst ` set (ys @ zs)" using assms(5) d by auto
  have "add_block s h nb r =
          (None, s\<lparr>blocks := (ys @ zs) @ [(tag nb, nb)]\<rparr>, h(memory_s s := m'))"
    using True ev del update_fresh [OF fresh] by (simp add: add_block_def)
  moreover have "\<exists>ys' vt' vb' zs'. blocks s = ys' @ (vt', vb') # zs'
                   \<and> choose_evict_tag s r = Some vt' \<and> ys @ zs = ys' @ zs'"
    using d ch by blast
  ultimately show ?thesis using True m' by (intro exI[of _ m'] exI[of _ "ys @ zs"]) simp
qed

lemma filter_prefix_length:
  assumes "i < n" and "\<forall>j \<le> i. P j"
  shows "i < length (filter P [0..<n])"
proof -
  have "[0..<n] = [0..<Suc i] @ [Suc i..<n]"
    using assms(1) upt_add_eq_append [of 0 "Suc i" "n - Suc i"] by simp
  moreover have "filter P [0..<Suc i] = [0..<Suc i]"
    using assms(2) by (auto simp: filter_id_conv simp del: upt_Suc)
  ultimately have "filter P [0..<n] = [0..<Suc i] @ filter P [Suc i..<n]"
    by (metis filter_append)
  then show ?thesis by simp
qed

lemma fill_loop_effect:
  assumes "mem_ok abit m" and "0 \<le> ba"
  shows "\<exists>d. fill_loop ba abit js m acc =
               (Inr (acc @ d), m\<lparr>access_count_m := access_count_m m + int (length d)\<rparr>)
           \<and> length d = length [i \<leftarrow> js. ba + int i < 2 ^ abit]"
  using assms
proof (induction js arbitrary: m acc)
  case Nil
  then show ?case by simp
next
  case (Cons i js)
  show ?case
  proof (cases "ba + int i < 2 ^ abit")
    case False
    obtain d where d: "fill_loop ba abit js m acc =
               (Inr (acc @ d), m\<lparr>access_count_m := access_count_m m + int (length d)\<rparr>)"
        "length d = length [i \<leftarrow> js. ba + int i < 2 ^ abit]"
      using Cons.IH [OF Cons.prems] by blast
    show ?thesis using False d by (intro exI[of _ d]) simp
  next
    case True
    let ?a = "ba + int i"
    let ?m1 = "m\<lparr>access_count_m := access_count_m m + 1\<rparr>"
    have rng: "0 \<le> ?a" "?a < size_m m" "nat ?a < length (data_m m)"
      using True Cons.prems by (auto simp: mem_ok_def)
    obtain v where rd: "Memory_read m ?a = (Inr v, ?m1)"
      using rng by (cases "data_m m ! nat ?a") (auto simp: Memory_read_def Let_def)
    have ok1: "mem_ok abit ?m1" using Cons.prems(1) by (simp add: mem_ok_def)
    obtain d where d: "fill_loop ba abit js ?m1 (acc @ [Some v]) =
               (Inr ((acc @ [Some v]) @ d), ?m1\<lparr>access_count_m := access_count_m ?m1 + int (length d)\<rparr>)"
        "length d = length [i \<leftarrow> js. ba + int i < 2 ^ abit]"
      using Cons.IH [OF ok1 Cons.prems(2)] by blast
    have "fill_loop ba abit (i # js) m acc =
            (Inr (acc @ (Some v # d)),
             m\<lparr>access_count_m := access_count_m m + int (length (Some v # d))\<rparr>)"
      using True rd d(1) by simp
    moreover have "length (Some v # d) = length [j \<leftarrow> i # js. ba + int j < 2 ^ abit]"
      using True d(2) by simp
    ultimately show ?thesis by blast
  qed
qed

lemma address_split_facts:
  assumes "address_split c a = Inr (t, idx, off)" and "0 < block_size c" and "0 < set_count c"
    and "0 \<le> a"
  shows "0 \<le> t" and "0 \<le> idx" and "idx < set_count c" and "0 \<le> off" and "off < block_size c"
    and "(a div block_size c) * block_size c = (t * set_count c + idx) * block_size c"
    and "(t * set_count c + idx) * block_size c + off = a"
proof -
  let ?b = "block_size c" and ?s = "set_count c"
  have r: "t = a div (?b * ?s)" "idx = (a div ?b) mod ?s" "off = a mod ?b"
    using assms(1) by (auto simp: address_split_def split: if_splits)
  have 1: "a div (?b * ?s) = (a div ?b) div ?s"
    using assms(3) by (simp add: zdiv_zmult2_eq)
  have 2: "(a div ?b) div ?s * ?s + (a div ?b) mod ?s = a div ?b" by simp
  show "0 \<le> t" unfolding r using assms(2,3,4) by (simp add: pos_imp_zdiv_nonneg_iff)
  show "0 \<le> idx" unfolding r using assms(3) by simp
  show "idx < set_count c" unfolding r using assms(3) by simp
  show "0 \<le> off" unfolding r using assms(2) by simp
  show "off < block_size c" unfolding r using assms(2) by simp
  have 3: "t * ?s + idx = a div ?b" unfolding r 1 by (rule 2)
  show "(a div ?b) * ?b = (t * ?s + idx) * ?b" unfolding 3 by simp
  show "(t * ?s + idx) * ?b + off = a" unfolding 3 unfolding r by simp
qed

lemma address_split_total:
  assumes "0 < block_size c" and "0 < set_count c" and "a < 2 ^ address_bit c"
  shows "\<exists>t idx off. address_split c a = Inr (t, idx, off)"
  using assms by (simp add: address_split_def)

lemma block_ok_mono:
  assumes "block_ok c i x" and "block_size c' = block_size c" and "set_count c' = set_count c"
    and "address_bit c' = address_bit c" and "time c \<le> time c'"
  shows "block_ok c' i x"
  using assms by (auto simp: block_ok_def)

lemma set_ok_mono:
  assumes "set_ok c i s" and "block_size c' = block_size c" and "set_count c' = set_count c"
    and "address_bit c' = address_bit c" and "time c \<le> time c'"
    and "memory c' = memory c" and "policy c' = policy c" and "associativity c' = associativity c"
  shows "set_ok c' i s"
  using assms block_ok_mono [OF _ assms(2,3,4,5)] by (auto simp: set_ok_def)

lemma set_ok_insert:
  assumes "set_ok c i s" and "block_size c' = block_size c" and "set_count c' = set_count c"
    and "address_bit c' = address_bit c" and "time c' = time c + 1"
    and "memory c' = memory c" and "policy c' = policy c" and "associativity c' = associativity c"
    and "block_ok c' i (t, nb)" and "load_time nb = time c" and "t \<notin> fst ` set (blocks s)"
    and "if associativity c \<le> int (length (blocks s))
         then \<exists>ys vt vb zs. blocks s = ys @ (vt, vb) # zs \<and> P vt \<and> bs' = ys @ zs
         else bs' = blocks s"
  shows "set_ok c' i (s\<lparr>blocks := bs' @ [(t, nb)]\<rparr>)"
proof -
  have le: "time c \<le> time c'" using assms(5) by simp
  have sub: "set bs' \<subseteq> set (blocks s)" and len: "int (length bs') + 1 \<le> associativity c"
    and dist: "distinct (map fst bs')" and srt: "sorted_wrt (<) (map (load_time \<circ> snd) bs')"
  proof -
    show "set bs' \<subseteq> set (blocks s)" using assms(12) by (auto split: if_splits)
    show "int (length bs') + 1 \<le> associativity c"
      using assms(12) assms(1) by (auto simp: set_ok_def split: if_splits)
    show "distinct (map fst bs')" using assms(12) assms(1) by (auto simp: set_ok_def split: if_splits)
    show "sorted_wrt (<) (map (load_time \<circ> snd) bs')"
      using assms(12) assms(1) by (auto simp: set_ok_def sorted_wrt_append split: if_splits)
  qed
  have old: "\<forall>x \<in> set bs'. block_ok c' i x"
    using sub assms(1) block_ok_mono [OF _ assms(2,3,4) le] by (auto simp: set_ok_def)
  have older: "\<forall>x \<in> set bs'. load_time (snd x) < load_time nb"
    using sub assms(1,10) by (auto simp: set_ok_def block_ok_def)
  have fresh: "t \<notin> fst ` set bs'" using sub assms(11) by auto
  show ?thesis
    using assms(1,6,7,8,9) len dist srt old older fresh
    by (auto simp: set_ok_def sorted_wrt_append)
qed

lemma data_at_in_range:
  assumes "0 \<le> off" and "nat off < length d"
  shows "data_at d off = Inr (d ! nat off)"
proof -
  have "d \<noteq> []" using assms(2) by auto
  moreover have "list_pos (length d) off = Some (nat off)"
    using assms by (auto simp: list_pos_def)
  ultimately show ?thesis by (simp add: data_at_def py_index_def)
qed

lemma read_miss_ok:
  assumes ok: "cache_ok c h" and a: "0 \<le> a" "a < 2 ^ address_bit c"
    and sp: "address_split c a = Inr (t, idx, off)"
    and s: "sets c idx = Some s" and fresh: "find_block s t = None"
  shows "\<exists>v bs' nb h'.
      read_miss c h (memory c) a r idx s t off =
        (Inr v, c\<lparr>sets := (sets c)(idx \<mapsto> s\<lparr>blocks := bs' @ [(t, nb)]\<rparr>), time := time c + 1\<rparr>, h')
      \<and> cache_ok (c\<lparr>sets := (sets c)(idx \<mapsto> s\<lparr>blocks := bs' @ [(t, nb)]\<rparr>), time := time c + 1\<rparr>) h'
      \<and> tag nb = t \<and> load_time nb = time c \<and> last_time nb = time c \<and> \<not> dirty nb
      \<and> (if associativity c \<le> int (length (blocks s))
         then \<exists>ys vt vb zs. blocks s = ys @ (vt, vb) # zs
                \<and> choose_evict_tag s r = Some vt \<and> bs' = ys @ zs
         else bs' = blocks s)"
proof -
  let ?bs = "block_size c" and ?sc = "set_count c" and ?mem = "memory c"
  have cfg: "0 < ?bs" "0 < ?sc" "0 < associativity c"
    "policy c \<in> set [''FIFO'', ''LRU'', ''RANDOM'']" "0 \<le> time c"
    and mok: "mem_ok (address_bit c) (h ?mem)"
    and all_sets: "\<forall>i. 0 \<le> i \<and> i < ?sc \<longrightarrow> (\<exists>s. sets c i = Some s \<and> set_ok c i s)"
    using ok by (simp_all add: cache_ok_def)
  note af = address_split_facts [OF sp cfg(1,2) a(1)]
  have sok: "set_ok c idx s" using all_sets af(2,3) s by auto
  let ?ba = "(a div ?bs) * ?bs"
  have ba: "?ba = (t * ?sc + idx) * ?bs" by (rule af(6))
  have ba0: "0 \<le> ?ba" using cfg(1) a(1) by (simp add: pos_imp_zdiv_nonneg_iff)
  have ba_off: "?ba + off = a" unfolding ba by (rule af(7))
  obtain d where fill: "fill_loop ?ba (address_bit c) [0..<nat ?bs] (h ?mem) [] =
        (Inr ([] @ d), (h ?mem)\<lparr>access_count_m := access_count_m (h ?mem) + int (length d)\<rparr>)"
    and dlen: "length d = length [i \<leftarrow> [0..<nat ?bs]. ?ba + int i < 2 ^ address_bit c]"
    using fill_loop_effect [OF mok ba0] by blast
  let ?m1 = "(h ?mem)\<lparr>access_count_m := access_count_m (h ?mem) + int (length d)\<rparr>"
  let ?h1 = "h(?mem := ?m1)"
  let ?nb = "\<lparr>tag = t, valid = True, dirty = False, block_size_b = ?bs, data = d,
              base_address = ?ba, load_time = time c, last_time = time c\<rparr>"
  have mok1: "mem_ok (address_bit c) ?m1" using mok by (simp add: mem_ok_def)
  have words: "\<forall>j < nat ?bs. ?ba + int j < 2 ^ address_bit c \<longrightarrow> j < length d"
  proof (intro allI impI)
    fix j assume j: "j < nat ?bs" and r: "?ba + int j < 2 ^ address_bit c"
    have "\<forall>k \<le> j. ?ba + int k < 2 ^ address_bit c" using r by auto
    then show "j < length d" unfolding dlen using j by (intro filter_prefix_length) auto
  qed
  have off_in: "nat off < length d"
    using words [rule_format, of "nat off"] af(4,5) ba_off a(2) by simp
  have v: "data_at d off = Inr (d ! nat off)" by (rule data_at_in_range [OF af(4) off_in])
  have ms: "memory_s s = ?mem" "policy_s s = policy c" "associativity_s s = associativity c"
    using sok by (simp_all add: set_ok_def)
  have pre1: "distinct (map fst (blocks s))" using sok by (simp add: set_ok_def)
  have pre2: "policy_s s \<in> set [''FIFO'', ''LRU'', ''RANDOM'']" using ms cfg(4) by simp
  have pre3: "0 < associativity_s s" using ms cfg(3) by simp
  have pre4: "\<forall>x \<in> set (blocks s). 0 \<le> load_time (snd x) \<and> 0 \<le> last_time (snd x)
           \<and> write_back_ready (snd x) (?h1 (memory_s s))"
  proof
    fix x assume x: "x \<in> set (blocks s)"
    then have bx: "block_ok c idx x" using sok by (simp add: set_ok_def)
    have "write_back_ready (snd x) ?m1"
      by (rule block_ok_write_back_ready [OF bx mok1 cfg(1,2) af(2)])
    then show "0 \<le> load_time (snd x) \<and> 0 \<le> last_time (snd x)
           \<and> write_back_ready (snd x) (?h1 (memory_s s))"
      using bx ms by (simp add: block_ok_def)
  qed
  have key_fresh: "t \<notin> fst ` set (blocks s)"
    using fresh by (simp add: find_block_def map_of_eq_None_iff)
  then have pre5: "tag ?nb \<notin> fst ` set (blocks s)" by simp
  obtain m' bs' where add: "add_block s ?h1 ?nb r =
             (None, s\<lparr>blocks := bs' @ [(tag ?nb, ?nb)]\<rparr>, ?h1(memory_s s := m'))"
    and m': "size_m m' = size_m (?h1 (memory_s s))"
      "length (data_m m') = length (data_m (?h1 (memory_s s)))"
    and shape: "if associativity_s s \<le> int (length (blocks s))
            then \<exists>ys vt vb zs. blocks s = ys @ (vt, vb) # zs
                   \<and> choose_evict_tag s r = Some vt \<and> bs' = ys @ zs
            else bs' = blocks s"
    using add_block_fresh [of s ?h1 ?nb r, OF pre1 pre2 pre3 pre4 pre5] by blast
  let ?s' = "s\<lparr>blocks := bs' @ [(t, ?nb)]\<rparr>"
  let ?c' = "c\<lparr>sets := (sets c)(idx \<mapsto> ?s'), time := time c + 1\<rparr>"
  let ?h' = "?h1(?mem := m')"
  have res: "read_miss c h ?mem a r idx s t off = (Inr (d ! nat off), ?c', ?h')"
    using fill add v ms(1) by (simp add: read_miss_def Let_def)
  have nb_ok: "block_ok ?c' idx (t, ?nb)"
    using af(1) ba words cfg(5) by (simp add: block_ok_def)
  have shape': "if associativity c \<le> int (length (blocks s))
         then \<exists>ys vt vb zs. blocks s = ys @ (vt, vb) # zs
                \<and> choose_evict_tag s r = Some vt \<and> bs' = ys @ zs
         else bs' = blocks s"
    using shape ms(3) by simp
  have s'_ok: "set_ok ?c' idx ?s'"
    by (rule set_ok_insert [of c idx s ?c' t ?nb "\<lambda>vt. choose_evict_tag s r = Some vt" bs'])
       (use sok nb_ok key_fresh shape' in simp_all)
  have others: "\<forall>i. 0 \<le> i \<and> i < ?sc \<longrightarrow> (\<exists>s. sets ?c' i = Some s \<and> set_ok ?c' i s)"
  proof (intro allI impI)
    fix i assume i: "0 \<le> i \<and> i < ?sc"
    show "\<exists>s. sets ?c' i = Some s \<and> set_ok ?c' i s"
    proof (cases "i = idx")
      case True
      then show ?thesis using s'_ok by simp
    next
      case False
      obtain si where si: "sets c i = Some si" "set_ok c i si" using all_sets i by blast
      have "set_ok ?c' i si" by (rule set_ok_mono [OF si(2)]) simp_all
      then show ?thesis using False si(1) by simp
    qed
  qed
  have mok': "mem_ok (address_bit c) (?h' ?mem)"
    using m' ms(1) mok1 by (simp add: mem_ok_def)
  have c'_ok: "cache_ok ?c' ?h'"
    using cfg others mok' by (simp add: cache_ok_def)
  show ?thesis
    using res c'_ok shape'
    by (intro exI[of _ "d ! nat off"] exI[of _ bs'] exI[of _ ?nb] exI[of _ ?h']) simp
qed

lemma map_update_same:
  "map_of xs t = Some b \<Longrightarrow> f b' = f b \<Longrightarrow> map (f \<circ> snd) (AList.update t b' xs) = map (f \<circ> snd) xs"
  by (induction xs) (auto split: if_splits)

lemma set_update_subset: "set (AList.update k v xs) \<subseteq> insert (k, v) (set xs)"
  by (induction xs) auto

lemma update_present_keys:
  "map_of xs t = Some b \<Longrightarrow> map fst (AList.update t b' xs) = map fst xs"
  by (induction xs) (auto split: if_splits)

text \<open>Replacing the block of a present tag by one with the same load time keeps the set in order.\<close>

lemma set_ok_replace:
  assumes "set_ok c i s" and "block_size c' = block_size c" and "set_count c' = set_count c"
    and "address_bit c' = address_bit c" and "time c \<le> time c'"
    and "memory c' = memory c" and "policy c' = policy c" and "associativity c' = associativity c"
    and "map_of (blocks s) t = Some b" and "block_ok c' i (t, b')" and "load_time b' = load_time b"
  shows "set_ok c' i (s\<lparr>blocks := AList.update t b' (blocks s)\<rparr>)"
proof -
  have keys: "map fst (AList.update t b' (blocks s)) = map fst (blocks s)"
    by (rule update_present_keys [OF assms(9)])
  have len: "length (AList.update t b' (blocks s)) = length (blocks s)"
    using arg_cong [OF keys, of length] by simp
  have lts: "map (load_time \<circ> snd) (AList.update t b' (blocks s)) = map (load_time \<circ> snd) (blocks s)"
    by (rule map_update_same [OF assms(9,11)])
  have "\<forall>x \<in> set (AList.update t b' (blocks s)). block_ok c' i x"
  proof
    fix x assume "x \<in> set (AList.update t b' (blocks s))"
    then have "x = (t, b') \<or> x \<in> set (blocks s)" using set_update_subset by fastforce
    then show "block_ok c' i x"
    proof
      assume "x = (t, b')"
      then show ?thesis using assms(10) by simp
    next
      assume "x \<in> set (blocks s)"
      then have "block_ok c i x" using assms(1) by (simp add: set_ok_def)
      then show ?thesis by (rule block_ok_mono [OF _ assms(2,3,4,5)])
    qed
  qed
  then show ?thesis using assms(1,6,7,8) keys len lts by (simp add: set_ok_def)
qed

lemma cache_ok_sets_update:
  assumes "cache_ok c h" and "block_size c' = block_size c" and "set_count c' = set_count c"
    and "address_bit c' = address_bit c" and "time c \<le> time c'"
    and "memory c' = memory c" and "policy c' = policy c" and "associativity c' = associativity c"
    and "sets c' = (sets c)(idx \<mapsto> s')" and "set_ok c' idx s'"
    and "mem_ok (address_bit c) (h' (memory c))"
  shows "cache_ok c' h'"
proof -
  have "\<forall>i. 0 \<le> i \<and> i < set_count c' \<longrightarrow> (\<exists>s. sets c' i = Some s \<and> set_ok c' i s)"
  proof (intro allI impI)
    fix i assume i: "0 \<le> i \<and> i < set_count c'"
    show "\<exists>s. sets c' i = Some s \<and> set_ok c' i s"
    proof (cases "i = idx")
      case True
      then show ?thesis using assms(9,10) by simp
    next
      case False
      obtain si where si: "sets c i = Some si" "set_ok c i si"
        using assms(1,3) i by (auto simp: cache_ok_def)
      have "set_ok c' i si" by (rule set_ok_mono [OF si(2) assms(2,3,4,5,6,7,8)])
      then show ?thesis using False si(1) assms(9) by simp
    qed
  qed
  moreover have "0 \<le> time c'" using assms(1,5) by (simp add: cache_ok_def)
  ultimately show ?thesis using assms(1,2,3,4,6,7,8,11) by (simp add: cache_ok_def)
qed

lemma hit_offset_in_block:
  assumes ok: "cache_ok c h" and a: "0 \<le> a" "a < 2 ^ address_bit c"
    and sp: "address_split c a = Inr (t, idx, off)"
    and s: "sets c idx = Some s" and found: "find_block s t = Some b"
  shows "set_ok c idx s" and "block_ok c idx (t, b)" and "0 \<le> off" and "nat off < length (data b)"
proof -
  have cfg: "0 < block_size c" "0 < set_count c"
    and all_sets: "\<forall>i. 0 \<le> i \<and> i < set_count c \<longrightarrow> (\<exists>s. sets c i = Some s \<and> set_ok c i s)"
    using ok by (simp_all add: cache_ok_def)
  note af = address_split_facts [OF sp cfg a(1)]
  show sok: "set_ok c idx s" using all_sets af(2,3) s by auto
  have "(t, b) \<in> set (blocks s)" using found by (simp add: find_block_def map_of_SomeD)
  then show bok: "block_ok c idx (t, b)" using sok by (simp add: set_ok_def)
  show "0 \<le> off" by (rule af(4))
  have "base_address b + int (nat off) = a" using bok af(4,7) by (simp add: block_ok_def)
  moreover have "nat off < nat (block_size c)" using af(4,5) by simp
  ultimately show "nat off < length (data b)" using bok a(2) by (simp add: block_ok_def)
qed

lemma read_hit_ok:
  assumes ok: "cache_ok c h" and a: "0 \<le> a" "a < 2 ^ address_bit c"
    and sp: "address_split c a = Inr (t, idx, off)"
    and s: "sets c idx = Some s" and found: "find_block s t = Some b"
    and b': "b' = (if policy c = ''LRU'' then b\<lparr>last_time := time c\<rparr> else b)"
    and c': "c' = c\<lparr>hit_count := hit_count c + 1, read_hit_count := read_hit_count c + 1,
                  sets := (sets c)(idx \<mapsto> s\<lparr>blocks := AList.update t b' (blocks s)\<rparr>),
                  time := time c + 1\<rparr>"
  shows "read_hit c idx s t off b = (Inr (data b ! nat off), c')" and "cache_ok c' h" and "valid b"
proof -
  note facts = hit_offset_in_block [OF ok a sp s found]
  have d: "data_at (data b) off = Inr (data b ! nat off)"
    by (rule data_at_in_range [OF facts(3,4)])
  show "read_hit c idx s t off b = (Inr (data b ! nat off), c')"
    using d b' c' by (cases "policy c = ''LRU''") (simp_all add: read_hit_def Let_def)
  show "valid b" using facts(2) by (simp add: block_ok_def)
  have bok': "block_ok c' idx (t, b')"
    using facts(2) b' c' by (cases "policy c = ''LRU''") (simp_all add: block_ok_def)
  have mo: "map_of (blocks s) t = Some b" using found by (simp add: find_block_def)
  have "set_ok c' idx (s\<lparr>blocks := AList.update t b' (blocks s)\<rparr>)"
    by (rule set_ok_replace [OF facts(1) _ _ _ _ _ _ _ mo bok']) (simp_all add: c' b')
  then show "cache_ok c' h"
    by (intro cache_ok_sets_update [OF ok, of c' idx]) (use ok in \<open>simp_all add: c' cache_ok_def\<close>)
qed

lemma write_hit_ok:
  assumes ok: "cache_ok c h" and a: "0 \<le> a" "a < 2 ^ address_bit c"
    and sp: "address_split c a = Inr (t, idx, off)"
    and s: "sets c idx = Some s" and found: "find_block s t = Some b"
    and b2: "b2 = b\<lparr>data := (data b)[nat off := Some d], dirty := True\<rparr>"
    and b': "b' = (if policy c = ''LRU'' then b2\<lparr>last_time := time c\<rparr> else b2)"
    and c': "c' = c\<lparr>hit_count := hit_count c + 1, write_hit_count := write_hit_count c + 1,
                  sets := (sets c)(idx \<mapsto> s\<lparr>blocks := AList.update t b' (blocks s)\<rparr>),
                  time := time c + 1\<rparr>"
  shows "write_hit c idx s t off d b = (Inr (), c')" and "cache_ok c' h" and "valid b"
proof -
  note facts = hit_offset_in_block [OF ok a sp s found]
  have ne: "data b \<noteq> []" using facts(4) by auto
  have pos: "list_pos (length (data b)) off = Some (nat off)"
    using facts(3,4) by (auto simp: list_pos_def)
  show "write_hit c idx s t off d b = (Inr (), c')"
    using ne pos b2 b' c' by (cases "policy c = ''LRU''") (simp_all add: write_hit_def Let_def)
  show "valid b" using facts(2) by (simp add: block_ok_def)
  have bok': "block_ok c' idx (t, b')"
    using facts(2) b' b2 c' by (cases "policy c = ''LRU''") (simp_all add: block_ok_def)
  have mo: "map_of (blocks s) t = Some b" using found by (simp add: find_block_def)
  have "set_ok c' idx (s\<lparr>blocks := AList.update t b' (blocks s)\<rparr>)"
    by (rule set_ok_replace [OF facts(1) _ _ _ _ _ _ _ mo bok']) (simp_all add: c' b' b2)
  then show "cache_ok c' h"
    by (intro cache_ok_sets_update [OF ok, of c' idx]) (use ok in \<open>simp_all add: c' cache_ok_def\<close>)
qed

lemma write_miss_ok:
  assumes ok: "cache_ok c h" and a: "0 \<le> a" "a < 2 ^ address_bit c"
    and h': "h' = h(memory c := (h (memory c))\<lparr>access_count_m := access_count_m (h (memory c)) + 1,
                     data_m := (data_m (h (memory c)))[nat a := Some d]\<rparr>)"
  shows "write_miss c h (memory c) a d = (Inr (), c\<lparr>time := time c + 1\<rparr>, h')"
    and "cache_ok (c\<lparr>time := time c + 1\<rparr>) h'"
proof -
  have mok: "mem_ok (address_bit c) (h (memory c))" using ok by (simp add: cache_ok_def)
  have rng: "a < size_m (h (memory c))" "nat a < length (data_m (h (memory c)))"
    using mok a by (auto simp: mem_ok_def)
  show "write_miss c h (memory c) a d = (Inr (), c\<lparr>time := time c + 1\<rparr>, h')"
    using rng a(1) h' by (simp add: write_miss_def Memory_write_def Let_def)
  have mok': "mem_ok (address_bit c) (h' (memory c))" using mok h' by (simp add: mem_ok_def)
  have "\<forall>i. 0 \<le> i \<and> i < set_count c \<longrightarrow>
          (\<exists>s. sets c i = Some s \<and> set_ok (c\<lparr>time := time c + 1\<rparr>) i s)"
  proof (intro allI impI)
    fix i assume i: "0 \<le> i \<and> i < set_count c"
    obtain si where si: "sets c i = Some si" "set_ok c i si"
      using ok i by (auto simp: cache_ok_def)
    have "set_ok (c\<lparr>time := time c + 1\<rparr>) i si" by (rule set_ok_mono [OF si(2)]) simp_all
    then show "\<exists>s. sets c i = Some s \<and> set_ok (c\<lparr>time := time c + 1\<rparr>) i s" using si(1) by simp
  qed
  then show "cache_ok (c\<lparr>time := time c + 1\<rparr>) h'"
    using ok mok' by (simp add: cache_ok_def)
qed

lemma cache_ok_counters [simp]:
  "cache_ok (c\<lparr>access_count := x\<rparr>) h = cache_ok c h"
  "cache_ok (c\<lparr>read_count := x\<rparr>) h = cache_ok c h"
  "cache_ok (c\<lparr>write_count := x\<rparr>) h = cache_ok c h"
  by (simp_all add: cache_ok_def set_ok_def block_ok_def)

lemma Cache_read_ok:
  assumes ok: "cache_ok c h" and a: "0 \<le> a" "a < 2 ^ address_bit c"
    and sp: "address_split c a = Inr (t, idx, off)" and s: "sets c idx = Some s"
  shows "\<exists>v c' h' s'. Cache_read c h (memory c) a r = (Inr v, c', h') \<and> cache_ok c' h'
      \<and> same_config c c' \<and> time c' = time c + 1 \<and> sets c' = (sets c)(idx \<mapsto> s')
      \<and> (case find_block s t of
           Some b \<Rightarrow> h' = h \<and> blocks s' =
               AList.update t (if policy c = ''LRU'' then b\<lparr>last_time := time c\<rparr> else b) (blocks s)
         | None \<Rightarrow> (\<exists>nb bs'. tag nb = t \<and> load_time nb = time c \<and> last_time nb = time c
               \<and> \<not> dirty nb \<and> blocks s' = bs' @ [(t, nb)]
               \<and> (if associativity c \<le> int (length (blocks s))
                  then \<exists>vt. choose_evict_tag s r = Some vt \<and> bs' = AList.delete vt (blocks s)
                  else bs' = blocks s)))"
proof -
  let ?c1 = "c\<lparr>access_count := access_count c + 1, read_count := read_count c + 1\<rparr>"
  have ok1: "cache_ok ?c1 h" using ok by simp
  have a1: "a < 2 ^ address_bit ?c1" using a(2) by simp
  have sp1: "address_split ?c1 a = Inr (t, idx, off)" using sp by simp
  have s1: "sets ?c1 idx = Some s" using s by simp
  show ?thesis
  proof (cases "find_block s t")
    case None
    obtain v bs' nb h' where
      rm: "read_miss ?c1 h (memory ?c1) a r idx s t off =
        (Inr v, ?c1\<lparr>sets := (sets ?c1)(idx \<mapsto> s\<lparr>blocks := bs' @ [(t, nb)]\<rparr>), time := time ?c1 + 1\<rparr>, h')"
      and ok': "cache_ok (?c1\<lparr>sets := (sets ?c1)(idx \<mapsto> s\<lparr>blocks := bs' @ [(t, nb)]\<rparr>),
                             time := time ?c1 + 1\<rparr>) h'"
      and nb: "tag nb = t" "load_time nb = time ?c1" "last_time nb = time ?c1" "\<not> dirty nb"
      and shape: "if associativity ?c1 \<le> int (length (blocks s))
         then \<exists>ys vt vb zs. blocks s = ys @ (vt, vb) # zs
                \<and> choose_evict_tag s r = Some vt \<and> bs' = ys @ zs
         else bs' = blocks s"
      using read_miss_ok [OF ok1 a(1) a1 sp1 s1 None, of r] by blast
    let ?s' = "s\<lparr>blocks := bs' @ [(t, nb)]\<rparr>"
    let ?c' = "?c1\<lparr>sets := (sets ?c1)(idx \<mapsto> ?s'), time := time ?c1 + 1\<rparr>"
    have sok: "set_ok c idx s" 
      using ok s address_split_facts(2,3) [OF sp _ _ a(1)] by (auto simp: cache_ok_def)
    have dist: "distinct (map fst (blocks s))" using sok by (simp add: set_ok_def)
    have shape': "if associativity c \<le> int (length (blocks s))
                  then \<exists>vt. choose_evict_tag s r = Some vt \<and> bs' = AList.delete vt (blocks s)
                  else bs' = blocks s"
    proof (cases "associativity c \<le> int (length (blocks s))")
      case True
      then obtain ys vt vb zs where d: "blocks s = ys @ (vt, vb) # zs"
        and ch: "choose_evict_tag s r = Some vt" and b: "bs' = ys @ zs"
        using shape by auto
      have "AList.delete vt (blocks s) = ys @ zs"
        unfolding d by (rule delete_middle) (use dist d in simp)
      then show ?thesis using True ch b by simp
    next
      case False
      then show ?thesis using shape by simp
    qed
    have res: "Cache_read c h (memory c) a r = (Inr v, ?c', h')"
      using sp1 s None rm by (simp add: Cache_read_def Let_def)
    have "blocks ?s' = bs' @ [(t, nb)]" by simp
    then have tail: "\<exists>nb' bs''. tag nb' = t \<and> load_time nb' = time c \<and> last_time nb' = time c
               \<and> \<not> dirty nb' \<and> blocks ?s' = bs'' @ [(t, nb')]
               \<and> (if associativity c \<le> int (length (blocks s))
                  then \<exists>vt. choose_evict_tag s r = Some vt \<and> bs'' = AList.delete vt (blocks s)
                  else bs'' = blocks s)"
      using nb shape' by (intro exI[of _ nb] exI[of _ bs']) simp
    show ?thesis
      by (intro exI[of _ v] exI[of _ ?c'] exI[of _ h'] exI[of _ ?s'])
         (use res ok' tail None in \<open>simp add: same_config_def\<close>)
  next
    case (Some b)
    let ?b' = "if policy ?c1 = ''LRU'' then b\<lparr>last_time := time ?c1\<rparr> else b"
    let ?s' = "s\<lparr>blocks := AList.update t ?b' (blocks s)\<rparr>"
    let ?c' = "?c1\<lparr>hit_count := hit_count ?c1 + 1, read_hit_count := read_hit_count ?c1 + 1,
                  sets := (sets ?c1)(idx \<mapsto> ?s'), time := time ?c1 + 1\<rparr>"
    note rh = read_hit_ok [OF ok1 a(1) a1 sp1 s1 Some refl refl]
    have res: "Cache_read c h (memory c) a r = (Inr (data b ! nat off), ?c', h)"
      using sp1 s Some rh(1,3) by (simp add: Cache_read_def Let_def)
    show ?thesis
      by (intro exI[of _ "data b ! nat off"] exI[of _ ?c'] exI[of _ h] exI[of _ ?s'])
         (use res rh(2) Some in \<open>simp add: same_config_def\<close>)
  qed
qed

lemma Cache_write_ok:
  assumes ok: "cache_ok c h" and a: "0 \<le> a" "a < 2 ^ address_bit c"
    and sp: "address_split c a = Inr (t, idx, off)" and s: "sets c idx = Some s"
  shows "\<exists>c' h'. Cache_write c h (memory c) a d = (Inr (), c', h') \<and> cache_ok c' h'
      \<and> same_config c c' \<and> time c' = time c + 1
      \<and> (case find_block s t of
           Some b \<Rightarrow> h' = h \<and> sets c' = (sets c)(idx \<mapsto> s\<lparr>blocks :=
               AList.update t
                 (if policy c = ''LRU''
                  then b\<lparr>data := (data b)[nat off := Some d], dirty := True, last_time := time c\<rparr>
                  else b\<lparr>data := (data b)[nat off := Some d], dirty := True\<rparr>) (blocks s)\<rparr>)
         | None \<Rightarrow> sets c' = sets c)"
proof -
  let ?c1 = "c\<lparr>access_count := access_count c + 1, write_count := write_count c + 1\<rparr>"
  have ok1: "cache_ok ?c1 h" using ok by simp
  have a1: "a < 2 ^ address_bit ?c1" using a(2) by simp
  have sp1: "address_split ?c1 a = Inr (t, idx, off)" using sp by simp
  have s1: "sets ?c1 idx = Some s" using s by simp
  show ?thesis
  proof (cases "find_block s t")
    case None
    let ?h' = "h(memory ?c1 := (h (memory ?c1))\<lparr>access_count_m := access_count_m (h (memory ?c1)) + 1,
                     data_m := (data_m (h (memory ?c1)))[nat a := Some d]\<rparr>)"
    note wm = write_miss_ok [where d = d, OF ok1 a(1) a1 refl]
    have res: "Cache_write c h (memory c) a d = (Inr (), ?c1\<lparr>time := time ?c1 + 1\<rparr>, ?h')"
      using sp1 s None wm(1) by (simp add: Cache_write_def Let_def)
    show ?thesis
      by (intro exI[of _ "?c1\<lparr>time := time ?c1 + 1\<rparr>"] exI[of _ ?h'])
         (use res wm(2) None in \<open>simp add: same_config_def\<close>)
  next
    case (Some b)
    let ?b2 = "b\<lparr>data := (data b)[nat off := Some d], dirty := True\<rparr>"
    let ?b' = "if policy ?c1 = ''LRU'' then ?b2\<lparr>last_time := time ?c1\<rparr> else ?b2"
    let ?s' = "s\<lparr>blocks := AList.update t ?b' (blocks s)\<rparr>"
    let ?c' = "?c1\<lparr>hit_count := hit_count ?c1 + 1, write_hit_count := write_hit_count ?c1 + 1,
                  sets := (sets ?c1)(idx \<mapsto> ?s'), time := time ?c1 + 1\<rparr>"
    note wh = write_hit_ok [where d = d, OF ok1 a(1) a1 sp1 s1 Some refl refl refl]
    have res: "Cache_write c h (memory c) a d = (Inr (), ?c', h)"
      using sp1 s Some wh(1,3) by (simp add: Cache_write_def Let_def)
    show ?thesis
      by (intro exI[of _ ?c'] exI[of _ h])
         (use res wh(2) Some in \<open>simp add: same_config_def\<close>)
  qed
qed

subsection \<open>FIFO is a queue of the tags read\<close>

lemma Cache_init_ok:
  assumes "Cache_init csize bsize assoc pol abit mem = Inr c" and "bsize * assoc \<le> csize"
    and "mem_ok abit (h mem)"
  shows "cache_ok c h" and "time c = 0" and "policy c = pol" and "associativity c = assoc"
    and "address_bit c = abit" and "memory c = mem"
    and "\<forall>i. 0 \<le> i \<and> i < set_count c \<longrightarrow> sets c i = Some (CacheSet_init assoc pol mem)"
proof -
  have pos: "0 < csize" "0 < bsize" "0 < assoc" and pol: "pol \<in> set [''FIFO'', ''LRU'', ''RANDOM'']"
    using assms(1) by (auto simp: Cache_init_def split: if_splits)
  have c: "c = \<lparr>cache_size = csize, associativity = assoc, policy = pol, address_bit = abit,
             block_size = bsize, set_count = csize div (bsize * assoc), memory = mem,
             access_count = 0, hit_count = 0, read_count = 0, write_count = 0,
             read_hit_count = 0, write_hit_count = 0, time = 0,
             sets = (\<lambda>i. if 0 \<le> i \<and> i < csize div (bsize * assoc)
                          then Some (CacheSet_init assoc pol mem) else None)\<rparr>"
    using assms(1) by (auto simp: Cache_init_def Let_def split: if_splits)
  have "0 < bsize * assoc" using pos by simp
  then have sc: "0 < csize div (bsize * assoc)"
    using assms(2) by (simp add: pos_imp_zdiv_pos_iff)
  have empty: "set_ok c i (CacheSet_init assoc pol mem)" for i
    using pos unfolding c by (simp add: set_ok_def CacheSet_init_def)
  show "cache_ok c h"
    unfolding cache_ok_def using pos pol sc assms(3) empty by (simp add: c)
  show "time c = 0" "policy c = pol" "associativity c = assoc" "address_bit c = abit"
    "memory c = mem"
    by (simp_all add: c)
  show "\<forall>i. 0 \<le> i \<and> i < set_count c \<longrightarrow> sets c i = Some (CacheSet_init assoc pol mem)"
    by (simp add: c)
qed

lemma fifo_victim_is_head:
  assumes "set_ok c i s" and "policy c = ''FIFO''" and "blocks s = (t0, b0) # rest"
  shows "choose_evict_tag s r = Some t0" and "AList.delete t0 (blocks s) = rest"
proof -
  have pol: "policy_s s = ''FIFO'' \<and> load_time = load_time \<or> policy_s s = ''LRU'' \<and> load_time = last_time"
    using assms(1,2) by (simp add: set_ok_def)
  have d: "blocks s = [] @ (t0, b0) # rest" using assms(3) by simp
  have nn: "\<forall>x \<in> set (blocks s). 0 \<le> load_time (snd x)"
    using assms(1) by (simp add: set_ok_def block_ok_def)
  have "sorted_wrt (<) (map (load_time \<circ> snd) ((t0, b0) # rest))"
    using assms(1,3) by (simp add: set_ok_def)
  then have after: "\<forall>x \<in> set rest. load_time b0 \<le> load_time (snd x)" by auto
  show "choose_evict_tag s r = Some t0"
    by (rule choose_evict_tag_first_least [OF pol d nn _ after]) simp
  have "distinct (map fst ([] @ (t0, b0) # rest))" using assms(1,3) by (simp add: set_ok_def)
  from delete_middle [OF this] show "AList.delete t0 (blocks s) = rest" using assms(3) by simp
qed

lemma fifo_insert_distinct:
  assumes "distinct ts" and "length ts \<le> k"
  shows "foldl (fifo_insert k) [] ts = ts"
  using assms
proof (induction ts rule: rev_induct)
  case Nil
  then show ?case by simp
next
  case (snoc t ts)
  then have ih: "foldl (fifo_insert k) [] ts = ts" by simp
  have "foldl (fifo_insert k) [] (ts @ [t]) = fifo_insert k (foldl (fifo_insert k) [] ts) t"
    by simp
  also have "\<dots> = fifo_insert k ts t" unfolding ih ..
  also have "\<dots> = ts @ [t]" using snoc.prems by (simp add: fifo_insert_def)
  finally show ?case .
qed

lemma fifo_insert_overflow:
  assumes "distinct ts" and "length ts = Suc k" and "0 < k"
  shows "foldl (fifo_insert k) [] ts = tl ts"
proof -
  obtain ts' t where ts: "ts = ts' @ [t]" using assms(2) by (cases ts rule: rev_cases) auto
  have d: "distinct ts'" "t \<notin> set ts'" and l: "length ts' = k" using assms(1,2) ts by auto
  have ne: "ts' \<noteq> []" using l assms(3) by auto
  have ih: "foldl (fifo_insert k) [] ts' = ts'"
    by (rule fifo_insert_distinct) (use d l in simp_all)
  have "foldl (fifo_insert k) [] ts = fifo_insert k (foldl (fifo_insert k) [] ts') t"
    unfolding ts by simp
  also have "\<dots> = fifo_insert k ts' t" unfolding ih ..
  also have "\<dots> = tl ts' @ [t]" using d l by (simp add: fifo_insert_def)
  finally show ?thesis using ts ne by simp
qed

lemma same_config_refl [simp]: "same_config c c"
  by (simp add: same_config_def)

lemma same_config_trans: "same_config c c1 \<Longrightarrow> same_config c1 c2 \<Longrightarrow> same_config c c2"
  by (simp add: same_config_def)

lemma address_split_same_config: "same_config c c' \<Longrightarrow> address_split c' a = address_split c a"
  by (simp add: same_config_def address_split_def)

lemma call_ok_same_config: "same_config c c' \<Longrightarrow> call_ok c' x = call_ok c x"
  by (cases x) (simp_all add: same_config_def)

lemma reads_into_same_config: "same_config c c' \<Longrightarrow> reads_into c' i xs = reads_into c i xs"
proof (induction xs)
  case Nil
  show ?case by simp
next
  case (Cons x xs)
  then show ?case
    by (cases x) (auto simp: address_split_same_config split: sum.splits)
qed

lemma read_fifo_tags:
  assumes ok: "cache_ok c h" and pol: "policy c = ''FIFO''"
    and a: "0 \<le> a" "a < 2 ^ address_bit c"
    and sp: "address_split c a = Inr (t, idx, off)"
  shows "\<exists>v c' h'. Cache_read c h (memory c) a r = (Inr v, c', h') \<and> cache_ok c' h'
      \<and> same_config c c'
      \<and> set_tags c' idx = fifo_insert (nat (associativity c)) (set_tags c idx) t
      \<and> (\<forall>i. i \<noteq> idx \<longrightarrow> set_tags c' i = set_tags c i)"
proof -
  have cfg: "0 < block_size c" "0 < set_count c" "0 < associativity c"
    using ok by (simp_all add: cache_ok_def)
  note af = address_split_facts [OF sp cfg(1,2) a(1)]
  obtain s where s: "sets c idx = Some s" and sok: "set_ok c idx s"
    using ok af(2,3) by (auto simp: cache_ok_def)
  obtain v c' h' s' where res: "Cache_read c h (memory c) a r = (Inr v, c', h')"
    and ok': "cache_ok c' h'" and same: "same_config c c'"
    and sets': "sets c' = (sets c)(idx \<mapsto> s')"
    and eff: "case find_block s t of
           Some b \<Rightarrow> h' = h \<and> blocks s' =
               AList.update t (if policy c = ''LRU'' then b\<lparr>last_time := time c\<rparr> else b) (blocks s)
         | None \<Rightarrow> (\<exists>nb bs'. tag nb = t \<and> load_time nb = time c \<and> last_time nb = time c
               \<and> \<not> dirty nb \<and> blocks s' = bs' @ [(t, nb)]
               \<and> (if associativity c \<le> int (length (blocks s))
                  then \<exists>vt. choose_evict_tag s r = Some vt \<and> bs' = AList.delete vt (blocks s)
                  else bs' = blocks s))"
    using Cache_read_ok [OF ok a sp s, of r] by blast
  have tags: "set_tags c idx = map fst (blocks s)" using s by (simp add: set_tags_def)
  have tags': "set_tags c' idx = map fst (blocks s')" using sets' by (simp add: set_tags_def)
  have others: "\<forall>i. i \<noteq> idx \<longrightarrow> set_tags c' i = set_tags c i"
    using sets' by (simp add: set_tags_def)
  have "map fst (blocks s') = fifo_insert (nat (associativity c)) (map fst (blocks s)) t"
  proof (cases "find_block s t")
    case (Some b)
    then have mo: "map_of (blocks s) t = Some b" by (simp add: find_block_def)
    then have "(t, b) \<in> set (blocks s)" by (rule map_of_SomeD)
    then have "t \<in> set (map fst (blocks s))" by force
    moreover have "map fst (blocks s') = map fst (blocks s)"
      using eff Some update_present_keys [OF mo] by simp
    ultimately show ?thesis by (simp add: fifo_insert_def)
  next
    case None
    then have fresh: "t \<notin> set (map fst (blocks s))"
      by (simp add: find_block_def map_of_eq_None_iff)
    obtain nb bs' where bl: "blocks s' = bs' @ [(t, nb)]"
      and shape: "if associativity c \<le> int (length (blocks s))
                  then \<exists>vt. choose_evict_tag s r = Some vt \<and> bs' = AList.delete vt (blocks s)
                  else bs' = blocks s"
      using eff None by auto
    show ?thesis
    proof (cases "associativity c \<le> int (length (blocks s))")
      case False
      then have "\<not> nat (associativity c) \<le> length (blocks s)" by linarith
      then show ?thesis using False shape bl fresh by (simp add: fifo_insert_def)
    next
      case True
      then have full: "nat (associativity c) \<le> length (blocks s)" by linarith
      then have "blocks s \<noteq> []" using cfg(3) by auto
      then obtain t0 b0 rest where hd: "blocks s = (t0, b0) # rest" by (cases "blocks s") auto
      note fv = fifo_victim_is_head [OF sok pol hd]
      obtain vt where "choose_evict_tag s r = Some vt" "bs' = AList.delete vt (blocks s)"
        using shape True by auto
      then have "bs' = rest" using fv by simp
      then have "map fst (blocks s') = tl (map fst (blocks s)) @ [t]" using bl hd by simp
      then show ?thesis using full fresh by (simp add: fifo_insert_def)
    qed
  qed
  then have "set_tags c' idx = fifo_insert (nat (associativity c)) (set_tags c idx) t"
    using tags tags' by simp
  then show ?thesis using res ok' same others by blast
qed

lemma write_keeps_tags:
  assumes ok: "cache_ok c h" and a: "0 \<le> a" "a < 2 ^ address_bit c"
  shows "\<exists>c' h'. Cache_write c h (memory c) a d = (Inr (), c', h') \<and> cache_ok c' h'
      \<and> same_config c c' \<and> (\<forall>i. set_tags c' i = set_tags c i)"
proof -
  have cfg: "0 < block_size c" "0 < set_count c"
    using ok by (simp_all add: cache_ok_def)
  obtain t idx off where sp: "address_split c a = Inr (t, idx, off)"
    using address_split_total [OF cfg a(2)] by blast
  note af = address_split_facts [OF sp cfg a(1)]
  obtain s where s: "sets c idx = Some s"
    using ok af(2,3) by (auto simp: cache_ok_def)
  obtain c' h' where res: "Cache_write c h (memory c) a d = (Inr (), c', h')"
    and ok': "cache_ok c' h'" and same: "same_config c c'"
    and eff: "case find_block s t of
           Some b \<Rightarrow> h' = h \<and> sets c' = (sets c)(idx \<mapsto> s\<lparr>blocks :=
               AList.update t
                 (if policy c = ''LRU''
                  then b\<lparr>data := (data b)[nat off := Some d], dirty := True, last_time := time c\<rparr>
                  else b\<lparr>data := (data b)[nat off := Some d], dirty := True\<rparr>) (blocks s)\<rparr>)
         | None \<Rightarrow> sets c' = sets c"
    using Cache_write_ok [OF ok a sp s, of d] by blast
  have "\<forall>i. set_tags c' i = set_tags c i"
  proof (cases "find_block s t")
    case None
    then show ?thesis using eff by (simp add: set_tags_def)
  next
    case (Some b)
    then have mo: "map_of (blocks s) t = Some b" by (simp add: find_block_def)
    show ?thesis using eff Some s update_present_keys [OF mo] by (simp add: set_tags_def)
  qed
  then show ?thesis using res ok' same by blast
qed

lemma do_call_fifo:
  assumes ok: "cache_ok c h" and pol: "policy c = ''FIFO''" and x: "call_ok c x"
  shows "\<exists>out c' h'. do_call c h x = (out, c', h') \<and> (\<forall>e. out \<noteq> Raised e) \<and> cache_ok c' h'
      \<and> same_config c c'
      \<and> (\<forall>i. set_tags c' i =
               foldl (fifo_insert (nat (associativity c))) (set_tags c i) (reads_into c i [x]))"
proof (cases x)
  case (Read mem a r)
  then have a: "mem = memory c" "0 \<le> a" "a < 2 ^ address_bit c" using x by simp_all
  have cfg: "0 < block_size c" "0 < set_count c" using ok by (simp_all add: cache_ok_def)
  obtain t idx off where sp: "address_split c a = Inr (t, idx, off)"
    using address_split_total [OF cfg a(3)] by blast
  obtain v c' h' where res: "Cache_read c h (memory c) a r = (Inr v, c', h')"
    and ok': "cache_ok c' h'" and same: "same_config c c'"
    and here: "set_tags c' idx = fifo_insert (nat (associativity c)) (set_tags c idx) t"
    and others: "\<forall>i. i \<noteq> idx \<longrightarrow> set_tags c' i = set_tags c i"
    using read_fifo_tags [OF ok pol a(2,3) sp, of r] by blast
  have dc: "do_call c h x = (ReadValue v, c', h')" using Read a(1) res by simp
  have "\<forall>i. set_tags c' i =
               foldl (fifo_insert (nat (associativity c))) (set_tags c i) (reads_into c i [x])"
    using Read sp here others by simp
  then show ?thesis using dc ok' same by simp
next
  case (Write mem a d)
  then have a: "mem = memory c" "0 \<le> a" "a < 2 ^ address_bit c" using x by simp_all
  obtain c' h' where res: "Cache_write c h (memory c) a d = (Inr (), c', h')"
    and ok': "cache_ok c' h'" and same: "same_config c c'"
    and tags: "\<forall>i. set_tags c' i = set_tags c i"
    using write_keeps_tags [OF ok a(2,3), of d] by blast
  have dc: "do_call c h x = (Written, c', h')" using Write a(1) res by simp
  show ?thesis using dc ok' same tags Write by simp
qed

lemma reads_into_Cons: "reads_into c i (x # xs) = reads_into c i [x] @ reads_into c i xs"
  by (cases x) (auto split: sum.splits)

lemma run_calls_fifo:
  assumes "cache_ok c h" and "policy c = ''FIFO''" and "\<forall>x \<in> set calls. call_ok c x"
  shows "\<exists>outs c' h'. run_calls c h calls = (outs, c', h') \<and> (\<forall>out \<in> set outs. \<forall>e. out \<noteq> Raised e)
      \<and> cache_ok c' h' \<and> same_config c c'
      \<and> (\<forall>i. set_tags c' i =
               foldl (fifo_insert (nat (associativity c))) (set_tags c i) (reads_into c i calls))"
  using assms
proof (induction calls arbitrary: c h)
  case Nil
  then show ?case by simp
next
  case (Cons x calls)
  have x: "call_ok c x" using Cons.prems(3) by simp
  obtain out c1 h1 where dc: "do_call c h x = (out, c1, h1)" and good: "\<forall>e. out \<noteq> Raised e"
    and ok1: "cache_ok c1 h1" and same1: "same_config c c1"
    and tags1: "\<forall>i. set_tags c1 i =
               foldl (fifo_insert (nat (associativity c))) (set_tags c i) (reads_into c i [x])"
    using do_call_fifo [OF Cons.prems(1,2) x] by blast
  have pol1: "policy c1 = ''FIFO''" using same1 Cons.prems(2) by (simp add: same_config_def)
  have as1: "associativity c1 = associativity c" using same1 by (simp add: same_config_def)
  have calls1: "\<forall>x \<in> set calls. call_ok c1 x"
    using Cons.prems(3) call_ok_same_config [OF same1] by simp
  obtain outs c' h' where run: "run_calls c1 h1 calls = (outs, c', h')"
    and goods: "\<forall>out \<in> set outs. \<forall>e. out \<noteq> Raised e"
    and ok': "cache_ok c' h'" and same': "same_config c1 c'"
    and tags': "\<forall>i. set_tags c' i =
               foldl (fifo_insert (nat (associativity c1))) (set_tags c1 i) (reads_into c1 i calls)"
    using Cons.IH [OF ok1 pol1 calls1] by blast
  have r: "run_calls c h (x # calls) = (out # outs, c', h')" using dc run by simp
  have "\<forall>i. set_tags c' i =
               foldl (fifo_insert (nat (associativity c))) (set_tags c i) (reads_into c i (x # calls))"
  proof
    fix i
    have "set_tags c' i = foldl (fifo_insert (nat (associativity c)))
            (foldl (fifo_insert (nat (associativity c))) (set_tags c i) (reads_into c i [x]))
            (reads_into c i calls)"
      using tags' tags1 as1 reads_into_same_config [OF same1] by simp
    also have "\<dots> = foldl (fifo_insert (nat (associativity c))) (set_tags c i)
            (reads_into c i [x] @ reads_into c i calls)"
      by simp
    finally show "set_tags c' i =
               foldl (fifo_insert (nat (associativity c))) (set_tags c i) (reads_into c i (x # calls))"
      using reads_into_Cons [of c i x calls] by simp
  qed
  then show ?case
    using r good goods ok' same_config_trans [OF same1 same'] by simp
qed

lemma update_keeps_stamps:
  "map_of xs t = Some b \<Longrightarrow> f b' = f b \<Longrightarrow>
     map (\<lambda>x. (fst x, f (snd x))) (AList.update t b' xs) = map (\<lambda>x. (fst x, f (snd x))) xs"
  by (induction xs) (auto split: if_splits)

lemma set_load_times_replace:
  assumes "sets c idx = Some s" and "map_of (blocks s) t = Some b" and "load_time b' = load_time b"
    and "sets c' = (sets c)(idx \<mapsto> s\<lparr>blocks := AList.update t b' (blocks s)\<rparr>)"
  shows "set_load_times c' = set_load_times c"
proof
  fix j
  show "set_load_times c' j = set_load_times c j"
    using assms update_keeps_stamps [OF assms(2), of load_time b']
    by (cases "j = idx") (simp_all add: set_load_times_def)
qed

lemma set_load_times_same_sets: "sets c' = sets c \<Longrightarrow> set_load_times c' = set_load_times c"
  by (rule ext) (simp add: set_load_times_def)

lemma read_hit_load_times:
  assumes "sets c idx = Some s" and "find_block s t = Some b"
  shows "set_load_times (snd (read_hit c idx s t off b)) = set_load_times c"
proof -
  let ?b' = "if policy c = ''LRU'' then b\<lparr>last_time := time c\<rparr> else b"
  have mo: "map_of (blocks s) t = Some b" using assms(2) by (simp add: find_block_def)
  have lt: "load_time ?b' = load_time b" by simp
  show ?thesis
    by (rule set_load_times_replace [OF assms(1) mo lt]) (simp add: read_hit_def Let_def)
qed

lemma write_hit_load_times:
  assumes "sets c idx = Some s" and "find_block s t = Some b"
  shows "set_load_times (snd (write_hit c idx s t off d b)) = set_load_times c"
proof -
  have mo: "map_of (blocks s) t = Some b" using assms(2) by (simp add: find_block_def)
  note replace = set_load_times_replace [OF assms(1) mo]
  show ?thesis
  proof (cases "data b = []")
    case True
    let ?b1 = "b\<lparr>data := replicate (nat (block_size c)) None\<rparr>"
    show ?thesis
    proof (cases "list_pos (nat (block_size c)) off")
      case None
      show ?thesis
        by (rule replace [of ?b1]) (use True None in \<open>simp_all add: write_hit_def Let_def\<close>)
    next
      case (Some j)
      let ?b2 = "?b1\<lparr>data := (data ?b1)[j := Some d], dirty := True\<rparr>"
      show ?thesis
      proof (cases "policy c = ''LRU''")
        case lru: True
        show ?thesis
          by (rule replace [of "?b2\<lparr>last_time := time c\<rparr>"])
             (use True Some lru in \<open>simp_all add: write_hit_def Let_def\<close>)
      next
        case other: False
        show ?thesis
          by (rule replace [of ?b2])
             (use True Some other in \<open>simp_all add: write_hit_def Let_def\<close>)
      qed
    qed
  next
    case False
    show ?thesis
    proof (cases "list_pos (length (data b)) off")
      case None
      show ?thesis
        by (rule replace [of b]) (use False None in \<open>simp_all add: write_hit_def Let_def\<close>)
    next
      case (Some j)
      let ?b2 = "b\<lparr>data := (data b)[j := Some d], dirty := True\<rparr>"
      show ?thesis
      proof (cases "policy c = ''LRU''")
        case lru: True
        show ?thesis
          by (rule replace [of "?b2\<lparr>last_time := time c\<rparr>"])
             (use False Some lru in \<open>simp_all add: write_hit_def Let_def\<close>)
      next
        case other: False
        show ?thesis
          by (rule replace [of ?b2])
             (use False Some other in \<open>simp_all add: write_hit_def Let_def\<close>)
      qed
    qed
  qed
qed

text \<open>No \<open>write\<close> assigns a load time, whatever its outcome.\<close>

lemma Cache_write_load_times:
  "set_load_times (fst (snd (Cache_write c h mem a d))) = set_load_times c"
proof -
  let ?c1 = "c\<lparr>access_count := access_count c + 1, write_count := write_count c + 1\<rparr>"
  have c1: "set_load_times ?c1 = set_load_times c" by (rule set_load_times_same_sets) simp
  show ?thesis
  proof (cases "address_split ?c1 a")
    case (Inl e)
    then show ?thesis using c1 by (simp add: Cache_write_def)
  next
    case (Inr tio)
    obtain t idx off where tio: "tio = (t, idx, off)" by (cases tio)
    show ?thesis
    proof (cases "sets ?c1 idx")
      case None
      then show ?thesis using Inr tio c1 by (simp add: Cache_write_def)
    next
      case (Some s)
      have miss: "set_load_times (fst (snd (write_miss ?c1 h mem a d))) = set_load_times c"
        unfolding c1 [symmetric]
        by (rule set_load_times_same_sets) (simp add: write_miss_def Let_def split: prod.splits)
      show ?thesis
      proof (cases "find_block s t")
        case None
        then show ?thesis using Inr tio Some miss by (simp add: Cache_write_def)
      next
        case found: (Some b)
        show ?thesis
        proof (cases "valid b")
          case False
          then show ?thesis using Inr tio Some found miss by (simp add: Cache_write_def)
        next
          case True
          have "set_load_times (snd (write_hit ?c1 idx s t off d b)) = set_load_times ?c1"
            by (rule write_hit_load_times [OF Some found])
          then show ?thesis
            using Inr tio Some found True c1
            by (auto simp: Cache_write_def split: prod.splits)
        qed
      qed
    qed
  qed
qed

text \<open>A \<open>read\<close> that hits assigns no load time.\<close>

lemma Cache_read_hit_load_times:
  assumes "address_split c a = Inr (t, idx, off)" and "sets c idx = Some s"
    and "find_block s t = Some b" and "valid b"
  shows "set_load_times (fst (snd (Cache_read c h mem a r))) = set_load_times c"
proof -
  let ?c1 = "c\<lparr>access_count := access_count c + 1, read_count := read_count c + 1\<rparr>"
  have c1: "set_load_times ?c1 = set_load_times c" by (rule set_load_times_same_sets) simp
  have s1: "sets ?c1 idx = Some s" using assms(2) by simp
  have "set_load_times (snd (read_hit ?c1 idx s t off b)) = set_load_times ?c1"
    by (rule read_hit_load_times [OF s1 assms(3)])
  then show ?thesis
    using assms c1 by (auto simp: Cache_read_def split: prod.splits)
qed

lemma Cache_init_tags:
  assumes "Cache_init csize bsize assoc pol abit mem = Inr c"
  shows "set_tags c i = []"
proof -
  have "sets c = (\<lambda>i. if 0 \<le> i \<and> i < csize div (bsize * assoc)
                          then Some (CacheSet_init assoc pol mem) else None)"
    using assms by (auto simp: Cache_init_def Let_def split: if_splits)
  then show ?thesis by (simp add: set_tags_def CacheSet_init_def)
qed

lemma fifo_k_plus_one:
  assumes init: "Cache_init csize bsize assoc ''FIFO'' abit m0 = Inr c0"
    and fits: "bsize * assoc \<le> csize" and mem: "mem_ok abit (h0 m0)"
    and calls: "\<forall>x \<in> set calls. call_ok c0 x"
    and dist: "distinct (reads_into c0 i calls)"
    and len: "length (reads_into c0 i calls) = nat assoc + 1"
  shows "\<exists>outs c' h'. run_calls c0 h0 calls = (outs, c', h')
           \<and> (\<forall>out \<in> set outs. \<forall>e. out \<noteq> Raised e)
           \<and> set_tags c' i = tl (reads_into c0 i calls)
           \<and> hd (reads_into c0 i calls) \<notin> set (set_tags c' i)"
proof -
  note i0 = Cache_init_ok [where h = h0, OF init fits mem]
  have pos: "0 < assoc" using i0(1,4) by (simp add: cache_ok_def)
  obtain outs c' h' where run: "run_calls c0 h0 calls = (outs, c', h')"
    and good: "\<forall>out \<in> set outs. \<forall>e. out \<noteq> Raised e"
    and tags: "\<forall>i. set_tags c' i =
               foldl (fifo_insert (nat (associativity c0))) (set_tags c0 i) (reads_into c0 i calls)"
    using run_calls_fifo [OF i0(1) i0(3) calls] by blast
  let ?ts = "reads_into c0 i calls"
  have "set_tags c' i = foldl (fifo_insert (nat assoc)) [] ?ts"
    using tags i0(4) Cache_init_tags [OF init] by simp
  also have "\<dots> = tl ?ts"
    by (rule fifo_insert_overflow [OF dist]) (use len pos in simp_all)
  finally have t: "set_tags c' i = tl ?ts" .
  have "?ts \<noteq> []" using len by auto
  then have "hd ?ts \<notin> set (tl ?ts)" using dist by (cases ?ts) auto
  then show ?thesis using run good t by simp
qed

text \<open>
  C2. Under FIFO, (1) when \<open>add_block\<close> finds the set full, the block it evicts is the
  occupant with the smallest \<open>load_time\<close> (every block before it in the set's order has a
  greater one, every block after it one at least as great), and the new block takes its
  place in the set; (2) no \<open>write\<close>, hit or miss, and no \<open>read\<close> that hits changes the
  \<open>load_time\<close> of any block of any set: it is assigned at the fill of a read miss only;
  (3) on a constructed FIFO cache of associativity \<open>k\<close> (with
  \<open>block_size * k \<le> cache_size\<close>, so that it has a set) over a Memory of \<open>2 ** address_bit\<close>
  cells, after any sequence of calls at addresses of the address space whose reads
  address \<open>k + 1\<close> distinct tags in set \<open>i\<close>, whatever writes (hitting or missing) are mixed
  in, every call has returned and set \<open>i\<close> holds the tags read second to last, in that
  order: the tag inserted first is the one evicted.
\<close>

theorem fifo_evicts_first_inserted:
  "(policy_s s = ''FIFO'' \<and> associativity_s s \<le> int (length (blocks s))
      \<and> blocks s = ys @ (t, b) # zs \<and> distinct (map fst (blocks s))
      \<and> (\<forall>x \<in> set (blocks s). 0 \<le> load_time (snd x))
      \<and> (\<forall>x \<in> set ys. load_time b < load_time (snd x))
      \<and> (\<forall>x \<in> set zs. load_time b \<le> load_time (snd x))
      \<and> (dirty b \<longrightarrow> write_back_ready b (h (memory_s s)))
     \<longrightarrow> (\<exists>h'. add_block s h nb r =
                  (None, s\<lparr>blocks := AList.update (tag nb) nb (ys @ zs)\<rparr>, h')))
   \<and> set_load_times (fst (snd (Cache_write c h mem a d))) = set_load_times c
   \<and> (address_split c a = Inr (ta, idx, off) \<and> sets c idx = Some sa
      \<and> find_block sa ta = Some ba \<and> valid ba
     \<longrightarrow> set_load_times (fst (snd (Cache_read c h mem a r))) = set_load_times c)
   \<and> (Cache_init csize bsize assoc ''FIFO'' abit m0 = Inr c0 \<and> bsize * assoc \<le> csize
      \<and> mem_ok abit (h0 m0) \<and> (\<forall>x \<in> set calls. call_ok c0 x)
      \<and> distinct (reads_into c0 i calls) \<and> length (reads_into c0 i calls) = nat assoc + 1
     \<longrightarrow> (\<exists>outs c' h'. run_calls c0 h0 calls = (outs, c', h')
           \<and> (\<forall>out \<in> set outs. \<forall>e. out \<noteq> Raised e)
           \<and> set_tags c' i = tl (reads_into c0 i calls)
           \<and> hd (reads_into c0 i calls) \<notin> set (set_tags c' i)))"
proof (intro conjI impI)
  assume p: "policy_s s = ''FIFO'' \<and> associativity_s s \<le> int (length (blocks s))
      \<and> blocks s = ys @ (t, b) # zs \<and> distinct (map fst (blocks s))
      \<and> (\<forall>x \<in> set (blocks s). 0 \<le> load_time (snd x))
      \<and> (\<forall>x \<in> set ys. load_time b < load_time (snd x))
      \<and> (\<forall>x \<in> set zs. load_time b \<le> load_time (snd x))
      \<and> (dirty b \<longrightarrow> write_back_ready b (h (memory_s s)))"
  then have pol: "policy_s s = ''FIFO'' \<and> load_time = load_time
                  \<or> policy_s s = ''LRU'' \<and> load_time = last_time" by simp
  from add_block_evicts_first_least [of s load_time ys t b zs h nb r, OF pol] p
  show "\<exists>h'. add_block s h nb r =
                  (None, s\<lparr>blocks := AList.update (tag nb) nb (ys @ zs)\<rparr>, h')"
    by blast
next
  show "set_load_times (fst (snd (Cache_write c h mem a d))) = set_load_times c"
    by (rule Cache_write_load_times)
next
  assume "address_split c a = Inr (ta, idx, off) \<and> sets c idx = Some sa
      \<and> find_block sa ta = Some ba \<and> valid ba"
  then show "set_load_times (fst (snd (Cache_read c h mem a r))) = set_load_times c"
    using Cache_read_hit_load_times by blast
next
  assume "Cache_init csize bsize assoc ''FIFO'' abit m0 = Inr c0 \<and> bsize * assoc \<le> csize
      \<and> mem_ok abit (h0 m0) \<and> (\<forall>x \<in> set calls. call_ok c0 x)
      \<and> distinct (reads_into c0 i calls) \<and> length (reads_into c0 i calls) = nat assoc + 1"
  then show "\<exists>outs c' h'. run_calls c0 h0 calls = (outs, c', h')
           \<and> (\<forall>out \<in> set outs. \<forall>e. out \<noteq> Raised e)
           \<and> set_tags c' i = tl (reads_into c0 i calls)
           \<and> hd (reads_into c0 i calls) \<notin> set (set_tags c' i)"
    using fifo_k_plus_one [of csize bsize assoc abit m0 c0 h0 calls i] by blast
qed

lemma demo_store_ok: "mem_ok 4 (demo_store m)"
  by (simp add: mem_ok_def demo_store_def Memory_init_def)

theorem fifo_evicts_first_inserted_witness:
  "policy_s (demo_set ''FIFO'' [(0, demo_block 0 0 True [Some 0, Some 7]),
                                 (1, demo_block 1 2 False [Some 0, Some 0])]) = ''FIFO''
   \<and> blocks (demo_set ''FIFO'' [(0, demo_block 0 0 True [Some 0, Some 7]),
                                 (1, demo_block 1 2 False [Some 0, Some 0])])
       = [] @ (0, demo_block 0 0 True [Some 0, Some 7]) # [(1, demo_block 1 2 False [Some 0, Some 0])]
   \<and> dirty (demo_block 0 0 True [Some 0, Some 7])
   \<and> write_back_ready (demo_block 0 0 True [Some 0, Some 7]) (demo_store 0)
   \<and> (\<exists>h'. add_block (demo_set ''FIFO'' [(0, demo_block 0 0 True [Some 0, Some 7]),
                                           (1, demo_block 1 2 False [Some 0, Some 0])])
                demo_store (demo_block 2 4 False [Some 0, Some 0]) 0
            = (None, (demo_set ''FIFO'' [(0, demo_block 0 0 True [Some 0, Some 7]),
                                         (1, demo_block 1 2 False [Some 0, Some 0])])
                 \<lparr>blocks := AList.update (tag (demo_block 2 4 False [Some 0, Some 0]))
                              (demo_block 2 4 False [Some 0, Some 0])
                              ([] @ [(1, demo_block 1 2 False [Some 0, Some 0])])\<rparr>, h'))
   \<and> set_load_times (fst (snd (Cache_write (demo_cache_read5 ''FIFO'') demo_store 0 4 7)))
       = set_load_times (demo_cache_read5 ''FIFO'')
   \<and> address_split (demo_cache_read5 ''FIFO'') 4 = Inr (1, 0, 0)
   \<and> sets (demo_cache_read5 ''FIFO'') 0
       = Some (demo_set ''FIFO'' [(1, demo_block 1 0 False [Some 0, Some 0])])
   \<and> find_block (demo_set ''FIFO'' [(1, demo_block 1 0 False [Some 0, Some 0])]) 1
       = Some (demo_block 1 0 False [Some 0, Some 0])
   \<and> valid (demo_block 1 0 False [Some 0, Some 0])
   \<and> set_load_times (fst (snd (Cache_read (demo_cache_read5 ''FIFO'') demo_store 0 4 0)))
       = set_load_times (demo_cache_read5 ''FIFO'')
   \<and> Cache_init 8 2 2 ''FIFO'' 4 0 = Inr (demo_cache ''FIFO'')
   \<and> (2::int) * 2 \<le> 8 \<and> mem_ok 4 (demo_store 0)
   \<and> reads_into (demo_cache ''FIFO'') 0
        [Read 0 1 0, Write 0 1 7, Read 0 5 0, Write 0 3 9, Read 0 9 0] = [0, 1, 2]
   \<and> (\<exists>outs c' h'. run_calls (demo_cache ''FIFO'') demo_store
                       [Read 0 1 0, Write 0 1 7, Read 0 5 0, Write 0 3 9, Read 0 9 0]
                     = (outs, c', h')
           \<and> (\<forall>out \<in> set outs. \<forall>e. out \<noteq> Raised e)
           \<and> set_tags c' 0 = [1, 2] \<and> 0 \<notin> set (set_tags c' 0))"
proof -
  let ?b0 = "demo_block 0 0 True [Some 0, Some 7]" and ?b1 = "demo_block 1 2 False [Some 0, Some 0]"
  let ?nb = "demo_block 2 4 False [Some 0, Some 0]"
  let ?s = "demo_set ''FIFO'' [(0, ?b0), (1, ?b1)]"
  let ?c1 = "demo_block 1 0 False [Some 0, Some 0]"
  let ?s1 = "demo_set ''FIFO'' [(1, ?c1)]"
  let ?C = "demo_cache_read5 ''FIFO''"
  let ?c0 = "demo_cache ''FIFO''"
  let ?calls = "[Read 0 1 0, Write 0 1 7, Read 0 5 0, Write 0 3 9, Read 0 9 0]"
  have a1: "policy_s ?s = ''FIFO''" by (simp add: demo_set_def CacheSet_init_def)
  have a2: "associativity_s ?s \<le> int (length (blocks ?s))"
    by (simp add: demo_set_def CacheSet_init_def)
  have a3: "blocks ?s = [] @ (0, ?b0) # [(1, ?b1)]" by (simp add: demo_set_def)
  have a4: "distinct (map fst (blocks ?s))" by (simp add: demo_set_def)
  have a5: "\<forall>x \<in> set (blocks ?s). 0 \<le> load_time (snd x)"
    by (simp add: demo_set_def demo_block_def)
  have a6: "\<forall>x \<in> set []. load_time ?b0 < load_time (snd x)" by simp
  have a7: "\<forall>x \<in> set [(1, ?b1)]. load_time ?b0 \<le> load_time (snd x)"
    by (simp add: demo_block_def)
  have d: "dirty ?b0" by (simp add: demo_block_def)
  have rdy: "write_back_ready ?b0 (demo_store 0)"
    by (auto simp: write_back_ready_def demo_block_def demo_store_def Memory_init_def)
  have a8: "dirty ?b0 \<longrightarrow> write_back_ready ?b0 (demo_store (memory_s ?s))"
    using rdy by (simp add: demo_set_def CacheSet_init_def)
  have b1: "address_split ?C 4 = Inr (1, 0, 0)"
    by (simp add: address_split_def demo_cache_read5_def demo_cache_def)
  have b2: "sets ?C 0 = Some ?s1" by (simp add: demo_cache_read5_def demo_set_def)
  have b3: "find_block ?s1 1 = Some ?c1" by (simp add: find_block_def demo_set_def)
  have b4: "valid ?c1" by (simp add: demo_block_def)
  have c1: "Cache_init 8 2 2 ''FIFO'' 4 0 = Inr ?c0" by (rule demo_cache_constructed) simp
  have c2: "(2::int) * 2 \<le> 8" by simp
  have c3: "mem_ok 4 (demo_store 0)" by (rule demo_store_ok)
  have c4: "\<forall>x \<in> set ?calls. call_ok ?c0 x" by (simp add: demo_cache_def)
  have c5: "reads_into ?c0 0 ?calls = [0, 1, 2]"
    by (simp add: address_split_def demo_cache_def)
  have c6: "distinct (reads_into ?c0 0 ?calls)" unfolding c5 by simp
  have c7: "length (reads_into ?c0 0 ?calls) = nat 2 + 1" unfolding c5 by simp
  note th = fifo_evicts_first_inserted [where s = ?s and ys = "[]" and t = 0 and b = ?b0
      and zs = "[(1, ?b1)]" and h = demo_store and nb = ?nb and r = 0 and c = ?C and mem = 0
      and a = 4 and d = 7 and ta = 1 and idx = 0 and off = 0 and sa = ?s1 and ba = ?c1
      and csize = 8 and bsize = 2 and assoc = 2 and abit = 4 and ?m0.0 = 0 and ?c0.0 = ?c0
      and ?h0.0 = demo_store and calls = ?calls and i = 0]
  have p1: "\<exists>h'. add_block ?s demo_store ?nb 0 =
              (None, ?s\<lparr>blocks := AList.update (tag ?nb) ?nb ([] @ [(1, ?b1)])\<rparr>, h')"
    using th a1 a2 a3 a4 a5 a6 a7 a8 by blast
  have p2: "set_load_times (fst (snd (Cache_write ?C demo_store 0 4 7))) = set_load_times ?C"
    using th by blast
  have p3: "set_load_times (fst (snd (Cache_read ?C demo_store 0 4 0))) = set_load_times ?C"
    using th b1 b2 b3 b4 by blast
  have "\<exists>outs c' h'. run_calls ?c0 demo_store ?calls = (outs, c', h')
           \<and> (\<forall>out \<in> set outs. \<forall>e. out \<noteq> Raised e)
           \<and> set_tags c' 0 = tl (reads_into ?c0 0 ?calls)
           \<and> hd (reads_into ?c0 0 ?calls) \<notin> set (set_tags c' 0)"
    using th c1 c2 c3 c4 c6 c7 by blast
  then have p4: "\<exists>outs c' h'. run_calls ?c0 demo_store ?calls = (outs, c', h')
           \<and> (\<forall>out \<in> set outs. \<forall>e. out \<noteq> Raised e)
           \<and> set_tags c' 0 = [1, 2] \<and> 0 \<notin> set (set_tags c' 0)"
    unfolding c5 by simp
  show ?thesis
    using a1 a3 d rdy p1 p2 b1 b2 b3 b4 p3 c1 c2 c3 c5 p4 by blast
qed

subsection \<open>LRU\<close>

lemma Cache_read_hit_last_time:
  assumes "policy c = ''LRU''" and "address_split c a = Inr (t, idx, off)"
    and "sets c idx = Some s" and "find_block s t = Some b" and "valid b"
  shows "\<exists>s'. sets (fst (snd (Cache_read c h mem a r))) idx = Some s'
           \<and> find_block s' t = Some (b\<lparr>last_time := time c\<rparr>)"
    and "time (fst (snd (Cache_read c h mem a r))) = time c + 1"
  using assms
  by (simp_all add: Cache_read_def read_hit_def Let_def find_block_def update_conv')

lemma Cache_write_hit_last_time:
  assumes "policy c = ''LRU''" and "address_split c a = Inr (t, idx, off)"
    and "sets c idx = Some s" and "find_block s t = Some b" and "valid b"
    and "0 \<le> off" and "nat off < length (data b)"
  shows "\<exists>s' b'. sets (fst (snd (Cache_write c h mem a d))) idx = Some s'
           \<and> find_block s' t = Some b' \<and> last_time b' = time c \<and> dirty b'"
    and "time (fst (snd (Cache_write c h mem a d))) = time c + 1"
proof -
  have ne: "data b \<noteq> []" using assms(7) by auto
  have pos: "list_pos (length (data b)) off = Some (nat off)"
    using assms(6,7) by (auto simp: list_pos_def)
  show "\<exists>s' b'. sets (fst (snd (Cache_write c h mem a d))) idx = Some s'
           \<and> find_block s' t = Some b' \<and> last_time b' = time c \<and> dirty b'"
    using assms(1-5) ne pos
    by (simp add: Cache_write_def write_hit_def Let_def find_block_def update_conv')
  show "time (fst (snd (Cache_write c h mem a d))) = time c + 1"
    using assms(1-5) ne pos
    by (simp add: Cache_write_def write_hit_def Let_def)
qed

lemma cache_ok_set:
  assumes "cache_ok c h" and "sets c i = Some s" and "0 \<le> i" and "i < set_count c"
  shows "set_ok c i s"
  using assms by (auto simp: cache_ok_def)

lemma lru_scenario:
  assumes init: "Cache_init csize bsize 2 ''LRU'' abit m0 = Inr c0"
    and fits: "bsize * 2 \<le> csize" and mem: "mem_ok abit (h0 m0)"
    and aA: "0 \<le> aA" "aA < 2 ^ abit" "address_split c0 aA = Inr (A, i, oA)"
    and aB: "0 \<le> aB" "aB < 2 ^ abit" "address_split c0 aB = Inr (B, i, oB)"
    and aA2: "0 \<le> aA2" "aA2 < 2 ^ abit" "address_split c0 aA2 = Inr (A, i, oA2)"
    and aC: "0 \<le> aC" "aC < 2 ^ abit" "address_split c0 aC = Inr (C, i, oC)"
    and ne: "A \<noteq> B" "C \<noteq> A" "C \<noteq> B"
  shows "\<exists>outs c' h'. run_calls c0 h0 [Read m0 aA r1, Read m0 aB r2, Read m0 aA2 r3, Read m0 aC r4]
             = (outs, c', h')
           \<and> (\<forall>out \<in> set outs. \<forall>e. out \<noteq> Raised e) \<and> set_tags c' i = [A, C]"
proof -
  note i0 = Cache_init_ok [where h = h0, OF init fits mem]
  have cfg0: "0 < block_size c0" "0 < set_count c0" using i0(1) by (simp_all add: cache_ok_def)
  note af = address_split_facts [OF aA(3) cfg0 aA(1)]
  have s0: "sets c0 i = Some (CacheSet_init 2 ''LRU'' m0)" using i0(7) af(2,3) by simp
  \<comment> \<open>read A: a miss into the empty set\<close>
  have lt0: "aA < 2 ^ address_bit c0" using aA(2) i0(5) by simp
  obtain v1 c1 h1 s1 where r1: "Cache_read c0 h0 (memory c0) aA r1 = (Inr v1, c1, h1)"
    and ok1: "cache_ok c1 h1" and same1: "same_config c0 c1" and t1: "time c1 = time c0 + 1"
    and sets1: "sets c1 = (sets c0)(i \<mapsto> s1)"
    and e1: "\<exists>nb bs'. tag nb = A \<and> load_time nb = time c0 \<and> last_time nb = time c0
               \<and> \<not> dirty nb \<and> blocks s1 = bs' @ [(A, nb)]
               \<and> (if associativity c0 \<le> int (length (blocks (CacheSet_init 2 ''LRU'' m0)))
                  then \<exists>vt. choose_evict_tag (CacheSet_init 2 ''LRU'' m0) r1 = Some vt
                         \<and> bs' = AList.delete vt (blocks (CacheSet_init 2 ''LRU'' m0))
                  else bs' = blocks (CacheSet_init 2 ''LRU'' m0))"
    using Cache_read_ok [OF i0(1) aA(1) lt0 aA(3) s0, of r1]
    by (auto simp: find_block_def CacheSet_init_def)
  obtain nbA where nbA: "last_time nbA = 0" and b1: "blocks s1 = [(A, nbA)]"
    using e1 i0(2,4) by (auto simp: CacheSet_init_def)
  \<comment> \<open>read B: a miss, the set has room\<close>
  have sp1: "address_split c1 aB = Inr (B, i, oB)"
    using aB(3) address_split_same_config [OF same1] by simp
  have lt1: "aB < 2 ^ address_bit c1" using aB(2) i0(5) same1 by (simp add: same_config_def)
  have s1: "sets c1 i = Some s1" using sets1 by simp
  have f1: "find_block s1 B = None" using b1 ne(1) by (simp add: find_block_def)
  have as1: "associativity c1 = 2" using i0(4) same1 by (simp add: same_config_def)
  obtain v2 c2 h2 s2 where r2: "Cache_read c1 h1 (memory c1) aB r2 = (Inr v2, c2, h2)"
    and ok2: "cache_ok c2 h2" and same2: "same_config c1 c2" and t2: "time c2 = time c1 + 1"
    and sets2: "sets c2 = (sets c1)(i \<mapsto> s2)"
    and e2: "\<exists>nb bs'. tag nb = B \<and> load_time nb = time c1 \<and> last_time nb = time c1
               \<and> \<not> dirty nb \<and> blocks s2 = bs' @ [(B, nb)]
               \<and> (if associativity c1 \<le> int (length (blocks s1))
                  then \<exists>vt. choose_evict_tag s1 r2 = Some vt \<and> bs' = AList.delete vt (blocks s1)
                  else bs' = blocks s1)"
    using Cache_read_ok [OF ok1 aB(1) lt1 sp1 s1, of r2] f1 by auto
  obtain nbB where nbB: "last_time nbB = 1" "\<not> dirty nbB" and b2: "blocks s2 = [(A, nbA), (B, nbB)]"
    using e2 b1 as1 t1 i0(2) by auto
  \<comment> \<open>read A again: a hit that refreshes its last time\<close>
  have same02: "same_config c0 c2" by (rule same_config_trans [OF same1 same2])
  have sp2: "address_split c2 aA2 = Inr (A, i, oA2)"
    using aA2(3) address_split_same_config [OF same02] by simp
  have lt2: "aA2 < 2 ^ address_bit c2" using aA2(2) i0(5) same02 by (simp add: same_config_def)
  have s2: "sets c2 i = Some s2" using sets2 by simp
  have f2: "find_block s2 A = Some nbA" using b2 by (simp add: find_block_def)
  have pol2: "policy c2 = ''LRU''" using i0(3) same02 by (simp add: same_config_def)
  obtain v3 c3 h3 s3 where r3: "Cache_read c2 h2 (memory c2) aA2 r3 = (Inr v3, c3, h3)"
    and ok3: "cache_ok c3 h3" and same3: "same_config c2 c3" and t3: "time c3 = time c2 + 1"
    and sets3: "sets c3 = (sets c2)(i \<mapsto> s3)"
    and e3: "blocks s3 = AList.update A (nbA\<lparr>last_time := time c2\<rparr>) (blocks s2)"
    using Cache_read_ok [OF ok2 aA2(1) lt2 sp2 s2, of r3] f2 pol2 by auto
  have b3: "blocks s3 = [(A, nbA\<lparr>last_time := 2\<rparr>), (B, nbB)]"
    using e3 b2 t2 t1 i0(2) by simp
  \<comment> \<open>read C: a miss into the full set; B has the least last time\<close>
  have same03: "same_config c0 c3" by (rule same_config_trans [OF same02 same3])
  have sp3: "address_split c3 aC = Inr (C, i, oC)"
    using aC(3) address_split_same_config [OF same03] by simp
  have lt3: "aC < 2 ^ address_bit c3" using aC(2) i0(5) same03 by (simp add: same_config_def)
  have s3: "sets c3 i = Some s3" using sets3 by simp
  have f3: "find_block s3 C = None" using b3 ne(2,3) by (simp add: find_block_def)
  have as3: "associativity c3 = 2" using i0(4) same03 by (simp add: same_config_def)
  have sc3: "set_count c3 = set_count c0" using same03 by (simp add: same_config_def)
  have sok3: "set_ok c3 i s3" by (rule cache_ok_set [OF ok3 s3]) (use af(2,3) sc3 in simp_all)
  have pol3: "policy_s s3 = ''LRU''"
    using sok3 i0(3) same03 by (simp add: set_ok_def same_config_def)
  have victim: "choose_evict_tag s3 r4 = Some B"
    by (rule choose_evict_tag_first_least [of s3 last_time "[(A, nbA\<lparr>last_time := 2\<rparr>)]" B nbB "[]"])
       (use pol3 b3 nbB in simp_all)
  obtain v4 c4 h4 s4 where r4: "Cache_read c3 h3 (memory c3) aC r4 = (Inr v4, c4, h4)"
    and sets4: "sets c4 = (sets c3)(i \<mapsto> s4)"
    and e4: "\<exists>nb bs'. tag nb = C \<and> load_time nb = time c3 \<and> last_time nb = time c3
               \<and> \<not> dirty nb \<and> blocks s4 = bs' @ [(C, nb)]
               \<and> (if associativity c3 \<le> int (length (blocks s3))
                  then \<exists>vt. choose_evict_tag s3 r4 = Some vt \<and> bs' = AList.delete vt (blocks s3)
                  else bs' = blocks s3)"
    using Cache_read_ok [OF ok3 aC(1) lt3 sp3 s3, of r4] f3 by auto
  obtain nbC where b4: "blocks s4 = [(A, nbA\<lparr>last_time := 2\<rparr>), (C, nbC)]"
    using e4 as3 b3 victim ne(1) by auto
  have tags: "set_tags c4 i = [A, C]" using sets4 b4 by (simp add: set_tags_def)
  have m: "memory c0 = m0" "memory c1 = m0" "memory c2 = m0" "memory c3 = m0"
    using i0(6) same1 same02 same03 by (simp_all add: same_config_def)
  have "run_calls c0 h0 [Read m0 aA r1, Read m0 aB r2, Read m0 aA2 r3, Read m0 aC r4]
          = ([ReadValue v1, ReadValue v2, ReadValue v3, ReadValue v4], c4, h4)"
    using r1 r2 r3 r4 m by simp
  then show ?thesis using tags by simp
qed

text \<open>
  C1. Under LRU, (1) when \<open>add_block\<close> finds the set full, the block it evicts is the
  occupant with the smallest \<open>last_time\<close> (every block before it in the set's order has a
  greater one, every block after it one at least as great), and the new block takes its
  place in the set; (2) a \<open>read\<close> that hits leaves the block in its set with \<open>last_time\<close>
  equal to the clock \<open>time\<close> of the call, and so does a \<open>write\<close> that hits (at an offset the
  block has a word for); (3) on a constructed LRU cache of associativity 2 (with
  \<open>block_size * 2 \<le> cache_size\<close>, so that it has a set) over a Memory of \<open>2 ** address_bit\<close>
  cells, reading an address of tag \<open>A\<close>, one of tag \<open>B\<close>, one of tag \<open>A\<close>
  again and one of a third tag \<open>C\<close>, all of the same set, leaves that set with the tags
  \<open>A\<close> and \<open>C\<close>: \<open>B\<close> is evicted, not \<open>A\<close>.
\<close>

theorem lru_evicts_least_recently_used:
  "(policy_s s = ''LRU'' \<and> associativity_s s \<le> int (length (blocks s))
      \<and> blocks s = ys @ (t, b) # zs \<and> distinct (map fst (blocks s))
      \<and> (\<forall>x \<in> set (blocks s). 0 \<le> last_time (snd x))
      \<and> (\<forall>x \<in> set ys. last_time b < last_time (snd x))
      \<and> (\<forall>x \<in> set zs. last_time b \<le> last_time (snd x))
      \<and> (dirty b \<longrightarrow> write_back_ready b (h (memory_s s)))
     \<longrightarrow> (\<exists>h'. add_block s h nb r =
                  (None, s\<lparr>blocks := AList.update (tag nb) nb (ys @ zs)\<rparr>, h')))
   \<and> (policy c = ''LRU'' \<and> address_split c a = Inr (ta, idx, off) \<and> sets c idx = Some sa
      \<and> find_block sa ta = Some ba \<and> valid ba
     \<longrightarrow> (\<exists>s'. sets (fst (snd (Cache_read c h mem a r))) idx = Some s'
              \<and> find_block s' ta = Some (ba\<lparr>last_time := time c\<rparr>))
         \<and> (0 \<le> off \<and> nat off < length (data ba)
            \<longrightarrow> (\<exists>s' b'. sets (fst (snd (Cache_write c h mem a d))) idx = Some s'
                   \<and> find_block s' ta = Some b' \<and> last_time b' = time c)))
   \<and> (Cache_init csize bsize 2 ''LRU'' abit m0 = Inr c0 \<and> bsize * 2 \<le> csize
      \<and> mem_ok abit (h0 m0)
      \<and> 0 \<le> aA \<and> aA < 2 ^ abit \<and> address_split c0 aA = Inr (A, i, oA)
      \<and> 0 \<le> aB \<and> aB < 2 ^ abit \<and> address_split c0 aB = Inr (B, i, oB)
      \<and> 0 \<le> aA2 \<and> aA2 < 2 ^ abit \<and> address_split c0 aA2 = Inr (A, i, oA2)
      \<and> 0 \<le> aC \<and> aC < 2 ^ abit \<and> address_split c0 aC = Inr (C, i, oC)
      \<and> A \<noteq> B \<and> C \<noteq> A \<and> C \<noteq> B
     \<longrightarrow> (\<exists>outs c' h'.
            run_calls c0 h0 [Read m0 aA r1, Read m0 aB r2, Read m0 aA2 r3, Read m0 aC r4]
              = (outs, c', h')
            \<and> (\<forall>out \<in> set outs. \<forall>e. out \<noteq> Raised e) \<and> set_tags c' i = [A, C]))"
proof (intro conjI impI)
  assume p: "policy_s s = ''LRU'' \<and> associativity_s s \<le> int (length (blocks s))
      \<and> blocks s = ys @ (t, b) # zs \<and> distinct (map fst (blocks s))
      \<and> (\<forall>x \<in> set (blocks s). 0 \<le> last_time (snd x))
      \<and> (\<forall>x \<in> set ys. last_time b < last_time (snd x))
      \<and> (\<forall>x \<in> set zs. last_time b \<le> last_time (snd x))
      \<and> (dirty b \<longrightarrow> write_back_ready b (h (memory_s s)))"
  then have pol: "policy_s s = ''FIFO'' \<and> last_time = load_time
                  \<or> policy_s s = ''LRU'' \<and> last_time = last_time" by simp
  from add_block_evicts_first_least [of s last_time ys t b zs h nb r, OF pol] p
  show "\<exists>h'. add_block s h nb r =
                  (None, s\<lparr>blocks := AList.update (tag nb) nb (ys @ zs)\<rparr>, h')"
    by blast
next
  assume q: "policy c = ''LRU'' \<and> address_split c a = Inr (ta, idx, off) \<and> sets c idx = Some sa
      \<and> find_block sa ta = Some ba \<and> valid ba"
  then show "\<exists>s'. sets (fst (snd (Cache_read c h mem a r))) idx = Some s'
              \<and> find_block s' ta = Some (ba\<lparr>last_time := time c\<rparr>)"
    using Cache_read_hit_last_time(1) by blast
  assume "0 \<le> off \<and> nat off < length (data ba)"
  then show "\<exists>s' b'. sets (fst (snd (Cache_write c h mem a d))) idx = Some s'
                   \<and> find_block s' ta = Some b' \<and> last_time b' = time c"
    using q Cache_write_hit_last_time(1) [of c a ta idx off sa ba h mem d] by blast
next
  assume "Cache_init csize bsize 2 ''LRU'' abit m0 = Inr c0 \<and> bsize * 2 \<le> csize
      \<and> mem_ok abit (h0 m0)
      \<and> 0 \<le> aA \<and> aA < 2 ^ abit \<and> address_split c0 aA = Inr (A, i, oA)
      \<and> 0 \<le> aB \<and> aB < 2 ^ abit \<and> address_split c0 aB = Inr (B, i, oB)
      \<and> 0 \<le> aA2 \<and> aA2 < 2 ^ abit \<and> address_split c0 aA2 = Inr (A, i, oA2)
      \<and> 0 \<le> aC \<and> aC < 2 ^ abit \<and> address_split c0 aC = Inr (C, i, oC)
      \<and> A \<noteq> B \<and> C \<noteq> A \<and> C \<noteq> B"
  then show "\<exists>outs c' h'.
            run_calls c0 h0 [Read m0 aA r1, Read m0 aB r2, Read m0 aA2 r3, Read m0 aC r4]
              = (outs, c', h')
            \<and> (\<forall>out \<in> set outs. \<forall>e. out \<noteq> Raised e) \<and> set_tags c' i = [A, C]"
    using lru_scenario [of csize bsize abit m0 c0 h0 aA A i oA aB B oB aA2 oA2 aC C oC r1 r2 r3 r4]
    by blast
qed

theorem lru_evicts_least_recently_used_witness:
  "policy_s (demo_set ''LRU'' [(0, (demo_block 0 0 False [Some 0, Some 0])\<lparr>last_time := 2\<rparr>),
                                (1, demo_block 1 1 False [Some 0, Some 0])]) = ''LRU''
   \<and> blocks (demo_set ''LRU'' [(0, (demo_block 0 0 False [Some 0, Some 0])\<lparr>last_time := 2\<rparr>),
                                (1, demo_block 1 1 False [Some 0, Some 0])])
       = [(0, (demo_block 0 0 False [Some 0, Some 0])\<lparr>last_time := 2\<rparr>)]
           @ (1, demo_block 1 1 False [Some 0, Some 0]) # []
   \<and> last_time (demo_block 1 1 False [Some 0, Some 0])
       < last_time ((demo_block 0 0 False [Some 0, Some 0])\<lparr>last_time := 2\<rparr>)
   \<and> (\<exists>h'. add_block (demo_set ''LRU'' [(0, (demo_block 0 0 False [Some 0, Some 0])\<lparr>last_time := 2\<rparr>),
                                          (1, demo_block 1 1 False [Some 0, Some 0])])
                demo_store (demo_block 2 3 False [Some 0, Some 0]) 0
            = (None, (demo_set ''LRU'' [(0, (demo_block 0 0 False [Some 0, Some 0])\<lparr>last_time := 2\<rparr>),
                                        (1, demo_block 1 1 False [Some 0, Some 0])])
                 \<lparr>blocks := AList.update (tag (demo_block 2 3 False [Some 0, Some 0]))
                              (demo_block 2 3 False [Some 0, Some 0])
                              ([(0, (demo_block 0 0 False [Some 0, Some 0])\<lparr>last_time := 2\<rparr>)] @ [])\<rparr>,
               h'))
   \<and> policy (demo_cache_read5 ''LRU'') = ''LRU''
   \<and> address_split (demo_cache_read5 ''LRU'') 4 = Inr (1, 0, 0)
   \<and> sets (demo_cache_read5 ''LRU'') 0
       = Some (demo_set ''LRU'' [(1, demo_block 1 0 False [Some 0, Some 0])])
   \<and> find_block (demo_set ''LRU'' [(1, demo_block 1 0 False [Some 0, Some 0])]) 1
       = Some (demo_block 1 0 False [Some 0, Some 0])
   \<and> valid (demo_block 1 0 False [Some 0, Some 0])
   \<and> time (demo_cache_read5 ''LRU'') = 1
   \<and> (\<exists>s'. sets (fst (snd (Cache_read (demo_cache_read5 ''LRU'') demo_store 0 4 0))) 0 = Some s'
          \<and> find_block s' 1 = Some ((demo_block 1 0 False [Some 0, Some 0])
                                      \<lparr>last_time := time (demo_cache_read5 ''LRU'')\<rparr>))
   \<and> (\<exists>s' b'. sets (fst (snd (Cache_write (demo_cache_read5 ''LRU'') demo_store 0 4 7))) 0 = Some s'
          \<and> find_block s' 1 = Some b' \<and> last_time b' = time (demo_cache_read5 ''LRU''))
   \<and> Cache_init 8 2 2 ''LRU'' 4 0 = Inr (demo_cache ''LRU'')
   \<and> address_split (demo_cache ''LRU'') 1 = Inr (0, 0, 1)
   \<and> address_split (demo_cache ''LRU'') 5 = Inr (1, 0, 1)
   \<and> address_split (demo_cache ''LRU'') 0 = Inr (0, 0, 0)
   \<and> address_split (demo_cache ''LRU'') 9 = Inr (2, 0, 1)
   \<and> (\<exists>outs c' h'.
        run_calls (demo_cache ''LRU'') demo_store [Read 0 1 0, Read 0 5 0, Read 0 0 0, Read 0 9 0]
          = (outs, c', h')
        \<and> (\<forall>out \<in> set outs. \<forall>e. out \<noteq> Raised e) \<and> set_tags c' 0 = [0, 2])"
proof -
  let ?x0 = "(demo_block 0 0 False [Some 0, Some 0])\<lparr>last_time := 2\<rparr>"
  let ?x1 = "demo_block 1 1 False [Some 0, Some 0]"
  let ?nb = "demo_block 2 3 False [Some 0, Some 0]"
  let ?s = "demo_set ''LRU'' [(0, ?x0), (1, ?x1)]"
  let ?c1 = "demo_block 1 0 False [Some 0, Some 0]"
  let ?s1 = "demo_set ''LRU'' [(1, ?c1)]"
  let ?C = "demo_cache_read5 ''LRU''"
  let ?c0 = "demo_cache ''LRU''"
  have a1: "policy_s ?s = ''LRU''" by (simp add: demo_set_def CacheSet_init_def)
  have a2: "associativity_s ?s \<le> int (length (blocks ?s))"
    by (simp add: demo_set_def CacheSet_init_def)
  have a3: "blocks ?s = [(0, ?x0)] @ (1, ?x1) # []" by (simp add: demo_set_def)
  have a4: "distinct (map fst (blocks ?s))" by (simp add: demo_set_def)
  have a5: "\<forall>x \<in> set (blocks ?s). 0 \<le> last_time (snd x)"
    by (simp add: demo_set_def demo_block_def)
  have lt: "last_time ?x1 < last_time ?x0" by (simp add: demo_block_def)
  have a6: "\<forall>x \<in> set [(0, ?x0)]. last_time ?x1 < last_time (snd x)" using lt by simp
  have a7: "\<forall>x \<in> set []. last_time ?x1 \<le> last_time (snd x)" by simp
  have a8: "dirty ?x1 \<longrightarrow> write_back_ready ?x1 (demo_store (memory_s ?s))"
    by (simp add: demo_block_def)
  have b0: "policy ?C = ''LRU''" by (simp add: demo_cache_read5_def demo_cache_def)
  have b1: "address_split ?C 4 = Inr (1, 0, 0)"
    by (simp add: address_split_def demo_cache_read5_def demo_cache_def)
  have b2: "sets ?C 0 = Some ?s1" by (simp add: demo_cache_read5_def demo_set_def)
  have b3: "find_block ?s1 1 = Some ?c1" by (simp add: find_block_def demo_set_def)
  have b4: "valid ?c1" by (simp add: demo_block_def)
  have b5: "(0::int) \<le> 0 \<and> nat 0 < length (data ?c1)" by (simp add: demo_block_def)
  have b6: "time ?C = 1" by (simp add: demo_cache_read5_def)
  have c1: "Cache_init 8 2 2 ''LRU'' 4 0 = Inr ?c0" by (rule demo_cache_constructed) simp
  have c2: "(2::int) * 2 \<le> 8" by simp
  have c3: "mem_ok 4 (demo_store 0)" by (rule demo_store_ok)
  have sA: "address_split ?c0 1 = Inr (0, 0, 1)" by (simp add: address_split_def demo_cache_def)
  have sB: "address_split ?c0 5 = Inr (1, 0, 1)" by (simp add: address_split_def demo_cache_def)
  have sA2: "address_split ?c0 0 = Inr (0, 0, 0)" by (simp add: address_split_def demo_cache_def)
  have sC: "address_split ?c0 9 = Inr (2, 0, 1)" by (simp add: address_split_def demo_cache_def)
  have rng: "(0::int) \<le> 1 \<and> (1::int) < 2 ^ 4 \<and> (0::int) \<le> 5 \<and> (5::int) < 2 ^ 4
             \<and> (0::int) \<le> 0 \<and> (0::int) < 2 ^ 4 \<and> (0::int) \<le> 9 \<and> (9::int) < 2 ^ 4
             \<and> (0::int) \<noteq> 1 \<and> (2::int) \<noteq> 0 \<and> (2::int) \<noteq> 1" by simp
  note th = lru_evicts_least_recently_used [where s = ?s and ys = "[(0, ?x0)]" and t = 1
      and b = ?x1 and zs = "[]" and h = demo_store and nb = ?nb and r = 0 and c = ?C and mem = 0
      and a = 4 and d = 7 and ta = 1 and idx = 0 and off = 0 and sa = ?s1 and ba = ?c1
      and csize = 8 and bsize = 2 and abit = 4 and ?m0.0 = 0 and ?c0.0 = ?c0
      and ?h0.0 = demo_store and aA = 1 and A = 0 and i = 0 and oA = 1 and aB = 5 and B = 1
      and oB = 1 and ?aA2.0 = 0 and ?oA2.0 = 0 and aC = 9 and C = 2 and oC = 1
      and ?r1.0 = 0 and ?r2.0 = 0 and ?r3.0 = 0 and ?r4.0 = 0]
  have p1: "\<exists>h'. add_block ?s demo_store ?nb 0 =
              (None, ?s\<lparr>blocks := AList.update (tag ?nb) ?nb ([(0, ?x0)] @ [])\<rparr>, h')"
    using th a1 a2 a3 a4 a5 a6 a7 a8 by blast
  have p2: "\<exists>s'. sets (fst (snd (Cache_read ?C demo_store 0 4 0))) 0 = Some s'
          \<and> find_block s' 1 = Some (?c1\<lparr>last_time := time ?C\<rparr>)"
    using th b0 b1 b2 b3 b4 by blast
  have p3: "\<exists>s' b'. sets (fst (snd (Cache_write ?C demo_store 0 4 7))) 0 = Some s'
          \<and> find_block s' 1 = Some b' \<and> last_time b' = time ?C"
    using th b0 b1 b2 b3 b4 b5 by blast
  have p4: "\<exists>outs c' h'.
        run_calls ?c0 demo_store [Read 0 1 0, Read 0 5 0, Read 0 0 0, Read 0 9 0] = (outs, c', h')
        \<and> (\<forall>out \<in> set outs. \<forall>e. out \<noteq> Raised e) \<and> set_tags c' 0 = [0, 2]"
    using th c1 c2 c3 sA sB sA2 sC rng by blast
  show ?thesis
    using a1 a3 lt p1 b0 b1 b2 b3 b4 b6 p2 p3 c1 sA sB sA2 sC p4 by blast
qed

end
